theory Spec2Isabelle
  imports Main
begin

section \<open>Values, exceptions and futures\<close>

text \<open>
  A decoded JSON value, as \<^verbatim>\<open>json.loads\<close> returns it: \<^verbatim>\<open>None\<close>, a bool, an int
  (unbounded), a str, a list or a dict. A dict has unique keys and keeps insertion order,
  so it is an association list read with \<open>map_of\<close>. Floats are left out.
\<close>

datatype json =
    JNull
  | JBool bool
  | JInt int
  | JStr string
  | JArr "json list"
  | JObj "(string \<times> json) list"

type_synonym dict = "(string \<times> json) list"

text \<open>The exceptions that the modelled code raises or lets through.\<close>

datatype exn =
    StreamDisconnectedException string
  | StreamSubscribeException json json
  | KeyError string
  | TypeError
  | InvalidStateError
  | CancelledError
  | ConnectionClosed
  | AttributeError
  | UserError string

text \<open>
  An \<^verbatim>\<open>asyncio.Future\<close>: pending, done with a result, done with an exception, or
  cancelled. \<^verbatim>\<open>set_result\<close> and \<^verbatim>\<open>set_exception\<close> raise \<^verbatim>\<open>InvalidStateError\<close> on a
  future that is not pending.
\<close>

datatype 'a future = Pending | Result 'a | Exception exn | Cancelled

definition set_result :: "'a future \<Rightarrow> 'a \<Rightarrow> exn + 'a future" where
  "set_result f v = (case f of Pending \<Rightarrow> Inr (Result v) | _ \<Rightarrow> Inl InvalidStateError)"

definition set_exception :: "'a future \<Rightarrow> exn \<Rightarrow> exn + 'a future" where
  "set_exception f e = (case f of Pending \<Rightarrow> Inr (Exception e) | _ \<Rightarrow> Inl InvalidStateError)"

text \<open>\<^verbatim>\<open>fut.cancel()\<close>: a pending future becomes cancelled, a done one is left alone.\<close>

definition cancel_future :: "'a future \<Rightarrow> 'a future" where
  "cancel_future f = (case f of Pending \<Rightarrow> Cancelled | _ \<Rightarrow> f)"

text \<open>What \<^verbatim>\<open>await fut\<close> gives its caller: \<open>None\<close> while the caller stays suspended.\<close>

definition await_future :: "'a future \<Rightarrow> (exn + 'a) option" where
  "await_future f =
     (case f of
        Pending \<Rightarrow> None
      | Result v \<Rightarrow> Some (Inr v)
      | Exception e \<Rightarrow> Some (Inl e)
      | Cancelled \<Rightarrow> Some (Inl CancelledError))"

text \<open>A future is resolved when a result or an exception has been set on it.\<close>

definition resolved :: "'a future \<Rightarrow> bool" where
  "resolved f = (case f of Result _ \<Rightarrow> True | Exception _ \<Rightarrow> True | _ \<Rightarrow> False)"

section \<open>Constants of the wire format\<close>

text \<open>
  Modelled from the spec: the constants \<^verbatim>\<open>STREAM_KEY_ID\<close>, \<^verbatim>\<open>STREAM_KEY_RESULT\<close>,
  \<^verbatim>\<open>STREAM_KEY_ERROR\<close>, \<^verbatim>\<open>ERROR_KEY_CODE\<close> and \<^verbatim>\<open>ERROR_KEY_MESSAGE\<close> are imported from
  \<^verbatim>\<open>binance.common.constants\<close>, which is not among the sources. The spec gives the frames
  as \<^verbatim>\<open>{"id": .., "result": ..}\<close> and \<^verbatim>\<open>{"id": .., "error": {"code": .., "msg": ..}}\<close>.
\<close>

definition STREAM_KEY_ID :: string where "STREAM_KEY_ID = ''id''"
definition STREAM_KEY_RESULT :: string where "STREAM_KEY_RESULT = ''result''"
definition STREAM_KEY_ERROR :: string where "STREAM_KEY_ERROR = ''error''"
definition ERROR_KEY_CODE :: string where "ERROR_KEY_CODE = ''code''"
definition ERROR_KEY_MESSAGE :: string where "ERROR_KEY_MESSAGE = ''msg''"

section \<open>Python's operators on decoded JSON\<close>

fun starts_with :: "string \<Rightarrow> string \<Rightarrow> bool" where
  "starts_with [] _ = True"
| "starts_with (p # ps) [] = False"
| "starts_with (p # ps) (c # cs) = (p = c \<and> starts_with ps cs)"

fun contains_str :: "string \<Rightarrow> string \<Rightarrow> bool" where
  "contains_str p [] = starts_with p []"
| "contains_str p (c # cs) = (starts_with p (c # cs) \<or> contains_str p cs)"

text \<open>
  \<^verbatim>\<open>key in msg\<close> for a str key: key membership on a dict, element membership on a
  list, substring test on a str, \<^verbatim>\<open>TypeError\<close> on \<^verbatim>\<open>None\<close>, a bool or an int.
\<close>

definition py_in :: "string \<Rightarrow> json \<Rightarrow> exn + bool" where
  "py_in k msg =
     (case msg of
        JObj kvs \<Rightarrow> Inr (map_of kvs k \<noteq> None)
      | JArr xs \<Rightarrow> Inr (JStr k \<in> set xs)
      | JStr s \<Rightarrow> Inr (contains_str k s)
      | _ \<Rightarrow> Inl TypeError)"

text \<open>
  \<^verbatim>\<open>msg[key]\<close> for a str key: the value or \<^verbatim>\<open>KeyError\<close> on a dict, \<^verbatim>\<open>TypeError\<close> on
  everything else (a list or a str wants an integer index).
\<close>

definition py_getitem :: "json \<Rightarrow> string \<Rightarrow> exn + json" where
  "py_getitem msg k =
     (case msg of
        JObj kvs \<Rightarrow> (case map_of kvs k of None \<Rightarrow> Inl (KeyError k) | Some v \<Rightarrow> Inr v)
      | _ \<Rightarrow> Inl TypeError)"

text \<open>
  A decoded value used as a key of \<^verbatim>\<open>Dict[int, Future]\<close>. A list or a dict is
  unhashable (\<^verbatim>\<open>TypeError\<close>); an int is the key itself; \<^verbatim>\<open>True\<close> and \<^verbatim>\<open>False\<close> hash and
  compare as 1 and 0; \<^verbatim>\<open>None\<close> and a str are hashable and equal to no int key.
\<close>

definition as_key :: "json \<Rightarrow> exn + int option" where
  "as_key j =
     (case j of
        JInt n \<Rightarrow> Inr (Some n)
      | JBool b \<Rightarrow> Inr (Some (if b then 1 else 0))
      | JNull \<Rightarrow> Inr None
      | JStr _ \<Rightarrow> Inr None
      | JArr _ \<Rightarrow> Inl TypeError
      | JObj _ \<Rightarrow> Inl TypeError)"

text \<open>
  \<^verbatim>\<open>d[k] = v\<close> on a dict: an existing key keeps its place and gets the new value, a new
  key goes to the end.
\<close>

fun dict_set :: "string \<Rightarrow> json \<Rightarrow> dict \<Rightarrow> dict" where
  "dict_set k v [] = [(k, v)]"
| "dict_set k v (p # ps) = (if fst p = k then (k, v) # ps else p # dict_set k v ps)"

section \<open>The Stream object\<close>

text \<open>
  Tasks the Stream hands to the event loop: its connection coroutine \<^verbatim>\<open>_connect()\<close>, the
  \<^verbatim>\<open>on_connected\<close> emission, and \<^verbatim>\<open>socket.close(code)\<close> on a socket.
\<close>

datatype task_kind = ConnTask | ConnectedTask | SocketCloseTask nat int

text \<open>
  The fields of \<^verbatim>\<open>Stream\<close> (the leading underscore dropped), followed by what the object
  refers to and what it does to the outside. Futures and tasks are objects with identity:
  each is a handle, allocated from \<open>fresh\<close>; \<open>futs\<close> holds the state of the response
  futures made by \<^verbatim>\<open>send\<close>, \<open>gates\<close> that of the open futures made by
  \<^verbatim>\<open>_before_connect\<close> (their result is a socket). \<open>spawned\<close> lists the tasks created,
  \<open>cancel_requests\<close> the tasks on which \<^verbatim>\<open>cancel()\<close> was called, \<open>emitted\<close> the messages
  handed to the \<^verbatim>\<open>on_message\<close> callback, \<open>written\<close> the frames written to a socket,
  \<open>pings\<close> the keepalive pings and \<open>logged\<close> the \<^verbatim>\<open>logger.error\<close> lines.
  \<open>on_message\<close> is the wrapped callback: \<open>None\<close> when there is none, else what a call
  of it raises (\<open>None\<close> when it returns).
\<close>

record stream =
  uri :: string
  on_message :: "(json \<Rightarrow> exn option) option"
  socket :: "nat option"
  conn_task :: "nat option"
  connected_task :: "nat option"
  message_id :: int
  message_futures :: "int \<rightharpoonup> nat"
  open_future :: "nat option"
  closing :: bool
  futs :: "nat \<Rightarrow> json future"
  gates :: "nat \<Rightarrow> nat future"
  fresh :: nat
  spawned :: "(nat \<times> task_kind) list"
  cancel_requests :: "nat list"
  emitted :: "json list"
  written :: "(nat \<times> dict) list"
  pings :: nat
  logged :: "string list"

text \<open>\<^verbatim>\<open>Stream.__init__\<close>.\<close>

definition init :: "string \<Rightarrow> (json \<Rightarrow> exn option) option \<Rightarrow> stream" where
  "init u cb =
     \<lparr> uri = u, on_message = cb, socket = None, conn_task = None, connected_task = None,
       message_id = 0, message_futures = Map.empty, open_future = None, closing = False,
       futs = (\<lambda>_. Pending), gates = (\<lambda>_. Pending), fresh = 0, spawned = [],
       cancel_requests = [], emitted = [], written = [], pings = 0, logged = [] \<rparr>"

text \<open>
  \<^verbatim>\<open>_set_socket\<close>: resolve and forget the open future, if there is one, then store the
  socket. \<^verbatim>\<open>set_result\<close> raises before anything is changed.
\<close>

definition set_socket :: "stream \<Rightarrow> nat \<Rightarrow> exn option \<times> stream" where
  "set_socket s sock =
     (case open_future s of
        Some g \<Rightarrow>
          (case set_result (gates s g) sock of
             Inl e \<Rightarrow> (Some e, s)
           | Inr f \<Rightarrow>
               (None, s\<lparr>gates := (gates s)(g := f), open_future := None, socket := Some sock\<rparr>))
      | None \<Rightarrow> (None, s\<lparr>socket := Some sock\<rparr>))"

text \<open>\<^verbatim>\<open>_before_connect\<close>: a new pending open future.\<close>

definition before_connect :: "stream \<Rightarrow> stream" where
  "before_connect s =
     s\<lparr>open_future := Some (fresh s), gates := (gates s)(fresh s := Pending),
       fresh := Suc (fresh s)\<rparr>"

text \<open>
  \<^verbatim>\<open>connect\<close>: \<^verbatim>\<open>_before_connect()\<close>, then a new task running \<^verbatim>\<open>_connect()\<close> is stored
  in \<^verbatim>\<open>_conn_task\<close>. It is a plain function: it returns \<^verbatim>\<open>self\<close> (here, the updated
  object) without suspending.
\<close>

definition connect :: "stream \<Rightarrow> stream" where
  "connect s =
     (let s1 = before_connect s; t = fresh s1
      in s1\<lparr>conn_task := Some t, spawned := spawned s1 @ [(t, ConnTask)], fresh := Suc t\<rparr>)"

text \<open>
  \<^verbatim>\<open>_emit(ON_MESSAGE, msg)\<close>: nothing without a callback; else the callback is awaited
  and what it raises comes out.
\<close>

definition emit_on_message :: "stream \<Rightarrow> json \<Rightarrow> exn option \<times> stream" where
  "emit_on_message s msg =
     (case on_message s of
        None \<Rightarrow> (None, s)
      | Some cb \<Rightarrow> (cb msg, s\<lparr>emitted := emitted s @ [msg]\<rparr>))"

text \<open>
  The second half of \<^verbatim>\<open>_handle_message\<close>, reached with \<open>k\<close> a key of
  \<^verbatim>\<open>_message_futures\<close> and \<open>h\<close> the future stored under it: set the result if the frame
  has one, else the exception if the frame has an error, then delete the entry. Whatever
  raises on the way (\<^verbatim>\<open>set_result\<close>, \<^verbatim>\<open>error[..]\<close>, \<^verbatim>\<open>set_exception\<close>) leaves the table
  as it was.
\<close>

definition resolve_pending :: "stream \<Rightarrow> json \<Rightarrow> int \<Rightarrow> nat \<Rightarrow> exn option \<times> stream" where
  "resolve_pending s msg k h =
     (let del = (\<lambda>s'. s'\<lparr>message_futures := (message_futures s')(k := None)\<rparr>) in
      case py_in STREAM_KEY_RESULT msg of
        Inl e \<Rightarrow> (Some e, s)
      | Inr True \<Rightarrow>
          (case py_getitem msg STREAM_KEY_RESULT of
             Inl e \<Rightarrow> (Some e, s)
           | Inr v \<Rightarrow>
               (case set_result (futs s h) v of
                  Inl e \<Rightarrow> (Some e, s)
                | Inr f \<Rightarrow> (None, del (s\<lparr>futs := (futs s)(h := f)\<rparr>))))
      | Inr False \<Rightarrow>
          (case py_in STREAM_KEY_ERROR msg of
             Inl e \<Rightarrow> (Some e, s)
           | Inr True \<Rightarrow>
               (case py_getitem msg STREAM_KEY_ERROR of
                  Inl e \<Rightarrow> (Some e, s)
                | Inr err \<Rightarrow>
                    (case py_getitem err ERROR_KEY_CODE of
                       Inl e \<Rightarrow> (Some e, s)
                     | Inr c \<Rightarrow>
                         (case py_getitem err ERROR_KEY_MESSAGE of
                            Inl e \<Rightarrow> (Some e, s)
                          | Inr m \<Rightarrow>
                              (case set_exception (futs s h) (StreamSubscribeException c m) of
                                 Inl e \<Rightarrow> (Some e, s)
                               | Inr f \<Rightarrow> (None, del (s\<lparr>futs := (futs s)(h := f)\<rparr>))))))
           | Inr False \<Rightarrow> (None, del s)))"

text \<open>
  \<^verbatim>\<open>_handle_message\<close>: a message without an \<^verbatim>\<open>id\<close>, or whose \<^verbatim>\<open>id\<close> is not a key of the
  pending table, goes to the \<^verbatim>\<open>on_message\<close> callback; any other one is resolved against
  the table.
\<close>

definition handle_message :: "stream \<Rightarrow> json \<Rightarrow> exn option \<times> stream" where
  "handle_message s msg =
     (case py_in STREAM_KEY_ID msg of
        Inl e \<Rightarrow> (Some e, s)
      | Inr False \<Rightarrow> emit_on_message s msg
      | Inr True \<Rightarrow>
          (case py_getitem msg STREAM_KEY_ID of
             Inl e \<Rightarrow> (Some e, s)
           | Inr idv \<Rightarrow>
               (case as_key idv of
                  Inl e \<Rightarrow> (Some e, s)
                | Inr None \<Rightarrow> emit_on_message s msg
                | Inr (Some k) \<Rightarrow>
                    (case message_futures s k of
                       None \<Rightarrow> emit_on_message s msg
                     | Some h \<Rightarrow> resolve_pending s msg k h))))"

text \<open>
  What one pass of \<^verbatim>\<open>_receive\<close> meets at its \<^verbatim>\<open>await\<close>: the timeout (and whether the
  ping that follows goes through), a closed connection, the cancellation of the task, a
  text that \<^verbatim>\<open>json.loads\<close> rejects, or a text that it decodes.
\<close>

datatype recv_event =
    RecvTimeout bool
  | RecvClosed
  | RecvCancelled
  | RecvInvalid string
  | RecvParsed json

definition receive :: "stream \<Rightarrow> recv_event \<Rightarrow> exn option \<times> stream" where
  "receive s ev =
     (case socket s of
        None \<Rightarrow> (Some AttributeError, s)
      | Some sock \<Rightarrow>
          (case ev of
             RecvTimeout ok \<Rightarrow>
               (if ok then (None, s\<lparr>pings := Suc (pings s)\<rparr>) else (Some ConnectionClosed, s))
           | RecvClosed \<Rightarrow> (Some ConnectionClosed, s)
           | RecvCancelled \<Rightarrow> (Some CancelledError, s)
           | RecvInvalid txt \<Rightarrow> (None, s\<lparr>logged := logged s @ [txt]\<rparr>)
           | RecvParsed msg \<Rightarrow> handle_message s msg))"

text \<open>
  \<^verbatim>\<open>_connect\<close>, once the socket is there: \<^verbatim>\<open>_set_socket\<close>, then the \<^verbatim>\<open>on_connected\<close>
  emission is started as a task.
\<close>

definition connect_opened :: "stream \<Rightarrow> nat \<Rightarrow> exn option \<times> stream" where
  "connect_opened s sock =
     (case set_socket s sock of
        (Some e, s1) \<Rightarrow> (Some e, s1)
      | (None, s1) \<Rightarrow>
          (None, s1\<lparr>connected_task := Some (fresh s1),
                     spawned := spawned s1 @ [(fresh s1, ConnectedTask)],
                     fresh := Suc (fresh s1)\<rparr>))"

text \<open>
  One pass of the receive loop of \<^verbatim>\<open>_connect\<close> that got past \<^verbatim>\<open>while not self._closing\<close>
  and now comes back from its \<^verbatim>\<open>await\<close>: go on, or leave by \<^verbatim>\<open>return\<close> (a closed
  connection or a cancellation while the stream is closing), or raise, which hands the
  exception to the retry decorator.
\<close>

datatype loop_result = Continue | Return | Raise exn

definition connect_iter :: "stream \<Rightarrow> recv_event \<Rightarrow> loop_result \<times> stream" where
  "connect_iter s ev =
     (case receive s ev of
        (None, s1) \<Rightarrow> (Continue, s1)
      | (Some e, s1) \<Rightarrow>
          (if (e = ConnectionClosed \<or> e = CancelledError) \<and> closing s1
           then (Return, s1) else (Raise e, s1)))"

text \<open>
  What awaiting a task gives: it returns, it raises something that \<^verbatim>\<open>except Exception\<close>
  catches, or it raises a \<^verbatim>\<open>CancelledError\<close> that \<^verbatim>\<open>except Exception\<close> lets through
  (from Python 3.8 on \<^verbatim>\<open>CancelledError\<close> is no \<^verbatim>\<open>Exception\<close>; before, a cancellation
  is of the second kind).
\<close>

datatype await_outcome = Returned | RaisedException | RaisedCancelled

text \<open>
  \<^verbatim>\<open>_reconnect\<close>, the hook that runs before each retry: log, cancel and await the
  \<^verbatim>\<open>on_connected\<close> task if there is one, then \<^verbatim>\<open>_before_connect()\<close>.
\<close>

definition reconnect :: "stream \<Rightarrow> await_outcome \<Rightarrow> exn option \<times> stream" where
  "reconnect s outcome =
     (let s0 = s\<lparr>logged := logged s @ [''socket error, reconnecting'']\<rparr> in
      case connected_task s0 of
        None \<Rightarrow> (None, before_connect s0)
      | Some t \<Rightarrow>
          (let s1 = s0\<lparr>cancel_requests := cancel_requests s0 @ [t]\<rparr> in
           case outcome of
             RaisedCancelled \<Rightarrow> (Some CancelledError, s1)
           | _ \<Rightarrow> (None, before_connect (s1\<lparr>connected_task := None\<rparr>))))"

text \<open>
  \<^verbatim>\<open>close\<close>, up to its first \<^verbatim>\<open>await\<close>: fail if \<^verbatim>\<open>_conn_task\<close> was never set; else raise
  the closing flag, start \<^verbatim>\<open>socket.close(code)\<close> as a task if there is a socket, and
  cancel the connection task. The result lists the tasks to await.
\<close>

definition close_begin :: "stream \<Rightarrow> int \<Rightarrow> exn + (nat list \<times> stream)" where
  "close_begin s code =
     (case conn_task s of
        None \<Rightarrow> Inl (StreamDisconnectedException (uri s))
      | Some t \<Rightarrow>
          (let s1 = s\<lparr>closing := True\<rparr>;
               (tasks, s2) =
                 (case socket s1 of
                    Some sock \<Rightarrow>
                      ([t, fresh s1],
                       s1\<lparr>spawned := spawned s1 @ [(fresh s1, SocketCloseTask sock code)],
                          fresh := Suc (fresh s1)\<rparr>)
                  | None \<Rightarrow> ([t], s1))
           in Inr (tasks, s2\<lparr>cancel_requests := cancel_requests s2 @ [t]\<rparr>)))"

text \<open>
  The rest of \<^verbatim>\<open>close\<close>: the tasks are awaited as they complete, \<open>outcomes\<close> giving what
  each \<^verbatim>\<open>await\<close> met, in that order; an \<^verbatim>\<open>Exception\<close> is logged, anything else leaves
  \<^verbatim>\<open>close\<close> at once. After the loop the socket is forgotten and the closing flag is
  lowered. \<^verbatim>\<open>_conn_task\<close> is not written.
\<close>

fun close_await :: "stream \<Rightarrow> await_outcome list \<Rightarrow> exn option \<times> stream" where
  "close_await s [] = (None, s\<lparr>socket := None, closing := False\<rparr>)"
| "close_await s (Returned # os) = close_await s os"
| "close_await s (RaisedException # os) =
     close_await (s\<lparr>logged := logged s @ [''close tasks error'']\<rparr>) os"
| "close_await s (RaisedCancelled # os) = (Some CancelledError, s)"

definition close :: "stream \<Rightarrow> int \<Rightarrow> await_outcome list \<Rightarrow> exn option \<times> stream" where
  "close s code outcomes =
     (case close_begin s code of
        Inl e \<Rightarrow> (Some e, s)
      | Inr (tasks, s1) \<Rightarrow> close_await s1 outcomes)"

section \<open>send\<close>

text \<open>
  What \<^verbatim>\<open>send\<close> has in hand once the request is registered: the id, the future and the
  caller's dict as \<^verbatim>\<open>send\<close> left it.
\<close>

record request =
  req_id :: int
  req_future :: nat
  req_msg :: dict

text \<open>
  The lines of \<^verbatim>\<open>send\<close> from \<^verbatim>\<open>future = create_future()\<close> to the insertion into
  \<^verbatim>\<open>_message_futures\<close>; no \<^verbatim>\<open>await\<close> stands between them.
  Modelled from the spec: \<^verbatim>\<open>create_future\<close> is imported from \<^verbatim>\<open>binance.common.utils\<close>,
  which is not among the sources; by the spec \<^verbatim>\<open>send\<close> "stores a pending slot", so it
  makes a new pending future.
\<close>

definition send_register :: "stream \<Rightarrow> dict \<Rightarrow> request \<times> stream" where
  "send_register s msg =
     (let h = fresh s; k = message_id s
      in (\<lparr>req_id = k, req_future = h, req_msg = dict_set STREAM_KEY_ID (JInt k) msg\<rparr>,
          s\<lparr>futs := (futs s)(h := Pending), fresh := Suc h, message_id := k + 1,
            message_futures := (message_futures s)(k \<mapsto> h)\<rparr>))"

text \<open>
  A call of \<^verbatim>\<open>send\<close>, seen by its caller: it raised; it is suspended on the open future;
  it registered its request and the write to the socket raised; or it registered, wrote
  and is suspended on its own future.
\<close>

datatype send_status =
    Raised exn
  | WaitingOpen nat
  | WriteFailed request exn
  | Awaiting request

text \<open>
  \<^verbatim>\<open>send\<close> from the point where it holds a socket. \<open>ok\<close> tells whether
  \<^verbatim>\<open>await socket.send(..)\<close> goes through; when it does not, \<^verbatim>\<open>ConnectionClosed\<close> is raised
  to the caller and nothing is undone. The frame written is the serialised dict; \<open>written\<close>
  keeps the dict.
\<close>

definition send_with_socket :: "stream \<Rightarrow> nat \<Rightarrow> dict \<Rightarrow> bool \<Rightarrow> send_status \<times> stream" where
  "send_with_socket s sock msg ok =
     (case send_register s msg of
        (r, s1) \<Rightarrow>
          (if ok then (Awaiting r, s1\<lparr>written := written s1 @ [(sock, req_msg r)]\<rparr>)
           else (WriteFailed r ConnectionClosed, s1)))"

text \<open>\<^verbatim>\<open>send\<close>, up to its first suspension.\<close>

definition send :: "stream \<Rightarrow> dict \<Rightarrow> bool \<Rightarrow> send_status \<times> stream" where
  "send s msg ok =
     (case socket s of
        Some sock \<Rightarrow> send_with_socket s sock msg ok
      | None \<Rightarrow>
          (case open_future s of
             Some g \<Rightarrow> (WaitingOpen g, s)
           | None \<Rightarrow> (Raised (StreamDisconnectedException (uri s)), s)))"

text \<open>A \<^verbatim>\<open>send\<close> suspended on the open future \<open>g\<close> is woken.\<close>

definition send_resume :: "stream \<Rightarrow> nat \<Rightarrow> dict \<Rightarrow> bool \<Rightarrow> send_status \<times> stream" where
  "send_resume s g msg ok =
     (case await_future (gates s g) of
        None \<Rightarrow> (WaitingOpen g, s)
      | Some (Inl e) \<Rightarrow> (Raised e, s)
      | Some (Inr sock) \<Rightarrow> send_with_socket s sock msg ok)"

text \<open>\<^verbatim>\<open>return await future\<close>: what the caller of a registered request has got so far.\<close>

definition send_result :: "stream \<Rightarrow> request \<Rightarrow> (exn + json) option" where
  "send_result s r = await_future (futs s (req_future r))"

section \<open>Runs\<close>

text \<open>
  Everything runs on one event loop, so the code between two \<^verbatim>\<open>await\<close>s is one step.
  The steps of a Stream's life: the calls of its methods, the segments of its connection
  task, and the cancellation of a caller suspended on a future (which cancels the future).
\<close>

datatype op =
    Connect
  | Opened nat
  | Receive recv_event
  | Reconnect await_outcome
  | CloseBegin int
  | CloseEnd "await_outcome list"
  | Send dict bool
  | SendResume nat dict bool
  | CancelWaiter nat
  | CancelOpenWaiter nat

definition step :: "stream \<Rightarrow> op \<Rightarrow> stream" where
  "step s x =
     (case x of
        Connect \<Rightarrow> connect s
      | Opened sock \<Rightarrow> snd (connect_opened s sock)
      | Receive ev \<Rightarrow> snd (connect_iter s ev)
      | Reconnect outcome \<Rightarrow> snd (reconnect s outcome)
      | CloseBegin code \<Rightarrow> (case close_begin s code of Inl e \<Rightarrow> s | Inr (tasks, s1) \<Rightarrow> s1)
      | CloseEnd outcomes \<Rightarrow> snd (close_await s outcomes)
      | Send msg ok \<Rightarrow> snd (send s msg ok)
      | SendResume g msg ok \<Rightarrow> snd (send_resume s g msg ok)
      | CancelWaiter h \<Rightarrow> s\<lparr>futs := (futs s)(h := cancel_future (futs s h))\<rparr>
      | CancelOpenWaiter g \<Rightarrow> s\<lparr>gates := (gates s)(g := cancel_future (gates s g))\<rparr>)"

fun run :: "stream \<Rightarrow> op list \<Rightarrow> stream" where
  "run s [] = s"
| "run s (x # xs) = run (step s x) xs"

text \<open>The request that a call of \<^verbatim>\<open>send\<close> has registered, and the id that a step assigns.\<close>

definition status_request :: "send_status \<Rightarrow> request option" where
  "status_request st =
     (case st of
        Awaiting r \<Rightarrow> Some r
      | WriteFailed r e \<Rightarrow> Some r
      | _ \<Rightarrow> None)"

definition status_id :: "send_status \<Rightarrow> int option" where
  "status_id st = map_option req_id (status_request st)"

definition issued :: "stream \<Rightarrow> op \<Rightarrow> int option" where
  "issued s x =
     (case x of
        Send msg ok \<Rightarrow> status_id (fst (send s msg ok))
      | SendResume g msg ok \<Rightarrow> status_id (fst (send_resume s g msg ok))
      | _ \<Rightarrow> None)"

fun run_ids :: "stream \<Rightarrow> op list \<Rightarrow> int list" where
  "run_ids s [] = []"
| "run_ids s (x # xs) =
     (case issued s x of None \<Rightarrow> [] | Some k \<Rightarrow> [k]) @ run_ids (step s x) xs"

text \<open>
  The calls a user can make on a Stream other than \<^verbatim>\<open>connect\<close>: a run of them is the
  life of a Stream on which \<^verbatim>\<open>connect\<close> was never called (the other steps belong to the
  connection task, which only \<^verbatim>\<open>connect\<close> creates, or follow a call that went through).
\<close>

definition never_connected :: "op list \<Rightarrow> bool" where
  "never_connected xs =
     list_all (\<lambda>x. case x of Send msg ok \<Rightarrow> True | CloseBegin code \<Rightarrow> True | _ \<Rightarrow> False) xs"

text \<open>
  What holds of the pending table in every state a Stream can reach: ids in the table
  are below the counter, the futures in it have been allocated, two ids never share a
  future, and no future in it has had a result or an exception set.
\<close>

definition table_ok :: "stream \<Rightarrow> bool" where
  "table_ok s \<longleftrightarrow>
     (\<forall>k h. message_futures s k = Some h \<longrightarrow> k < message_id s \<and> h < fresh s) \<and>
     (\<forall>k k' h. message_futures s k = Some h \<and> message_futures s k' = Some h \<longrightarrow> k = k') \<and>
     (\<forall>k h. message_futures s k = Some h \<longrightarrow> \<not> resolved (futs s h))"

text \<open>The open future and the tasks a Stream refers to have been allocated.\<close>

definition handles_ok :: "stream \<Rightarrow> bool" where
  "handles_ok s \<longleftrightarrow>
     (\<forall>g. open_future s = Some g \<longrightarrow> g < fresh s) \<and>
     (\<forall>t. conn_task s = Some t \<longrightarrow> t < fresh s) \<and>
     (\<forall>t. connected_task s = Some t \<longrightarrow> t < fresh s)"

text \<open>
  Well-formed responses of the server to request \<open>k\<close>: \<^verbatim>\<open>{"id": k, "result": v}\<close> and
  \<^verbatim>\<open>{"id": k, "error": {"code": c, "msg": m}}\<close>, and what each should leave in the
  caller's future.
\<close>

datatype response = Ok json | Fail json json

definition frame_of :: "int \<times> response \<Rightarrow> json" where
  "frame_of kr =
     (case kr of
        (k, Ok v) \<Rightarrow> JObj [(STREAM_KEY_ID, JInt k), (STREAM_KEY_RESULT, v)]
      | (k, Fail c m) \<Rightarrow>
          JObj [(STREAM_KEY_ID, JInt k),
                (STREAM_KEY_ERROR, JObj [(ERROR_KEY_CODE, c), (ERROR_KEY_MESSAGE, m)])])"

definition outcome_of :: "response \<Rightarrow> json future" where
  "outcome_of r = (case r of Ok v \<Rightarrow> Result v | Fail c m \<Rightarrow> Exception (StreamSubscribeException c m))"

definition caller_gets :: "response option \<Rightarrow> (exn + json) option" where
  "caller_gets ro = (case ro of None \<Rightarrow> None | Some r \<Rightarrow> await_future (outcome_of r))"

text \<open>
  The receive loop of \<^verbatim>\<open>_connect\<close>, run on the events that its \<^verbatim>\<open>await\<close>s meet one after
  the other, with nothing else running in between: \<^verbatim>\<open>while not self._closing\<close> is
  checked before every pass, and the loop is left for good by the first pass that does not
  end normally, so the events after it are never taken. \<open>Continue\<close> says that the loop
  has taken every event and waits for the next one.
\<close>

fun receive_loop :: "stream \<Rightarrow> recv_event list \<Rightarrow> loop_result \<times> stream" where
  "receive_loop s [] = (if closing s then Return else Continue, s)"
| "receive_loop s (ev # evs) =
     (if closing s then (Return, s)
      else
        (case connect_iter s ev of
           (Continue, s1) \<Rightarrow> receive_loop s1 evs
         | (Return, s1) \<Rightarrow> (Return, s1)
         | (Raise e, s1) \<Rightarrow> (Raise e, s1)))"

text \<open>The receive loop meets a list of responses, one frame after the other.\<close>

definition deliver :: "stream \<Rightarrow> (int \<times> response) list \<Rightarrow> stream" where
  "deliver s rs = snd (receive_loop s (map (\<lambda>kr. RecvParsed (frame_of kr)) rs))"

definition deliver_result :: "stream \<Rightarrow> (int \<times> response) list \<Rightarrow> loop_result" where
  "deliver_result s rs = fst (receive_loop s (map (\<lambda>kr. RecvParsed (frame_of kr)) rs))"

text \<open>
  Calls of \<^verbatim>\<open>send\<close> issued one after the other, none of them answered yet, every write
  going through; the result lists the requests registered.
\<close>

fun send_all :: "stream \<Rightarrow> dict list \<Rightarrow> request list \<times> stream" where
  "send_all s [] = ([], s)"
| "send_all s (msg # msgs) =
     (case send s msg True of
        (st, s1) \<Rightarrow>
          (case send_all s1 msgs of
             (rs, s2) \<Rightarrow> ((case status_request st of None \<Rightarrow> [] | Some r \<Rightarrow> [r]) @ rs, s2)))"

text \<open>
  What a frame found in the pending table asks for, read off the branches of
  \<^verbatim>\<open>_handle_message\<close>: a result or an exception to set on the future, or nothing.
\<close>

definition frame_action :: "json \<Rightarrow> exn + json future option" where
  "frame_action msg =
     (case py_in STREAM_KEY_RESULT msg of
        Inl e \<Rightarrow> Inl e
      | Inr True \<Rightarrow> (case py_getitem msg STREAM_KEY_RESULT of Inl e \<Rightarrow> Inl e | Inr v \<Rightarrow> Inr (Some (Result v)))
      | Inr False \<Rightarrow>
          (case py_in STREAM_KEY_ERROR msg of
             Inl e \<Rightarrow> Inl e
           | Inr False \<Rightarrow> Inr None
           | Inr True \<Rightarrow>
               (case py_getitem msg STREAM_KEY_ERROR of
                  Inl e \<Rightarrow> Inl e
                | Inr err \<Rightarrow>
                    (case py_getitem err ERROR_KEY_CODE of
                       Inl e \<Rightarrow> Inl e
                     | Inr c \<Rightarrow>
                         (case py_getitem err ERROR_KEY_MESSAGE of
                            Inl e \<Rightarrow> Inl e
                          | Inr m \<Rightarrow> Inr (Some (Exception (StreamSubscribeException c m))))))))"

section \<open>The dispatcher\<close>

text \<open>
  A consumer registered with a processor: a name, whether its \<^verbatim>\<open>receive\<close> is a coroutine
  function, what the body of \<^verbatim>\<open>receive\<close> raises on a payload (\<open>None\<close> when it
  returns) and, for a coroutine, the time at which its body ends (a coroutine may await
  before it returns or raises; a plain \<^verbatim>\<open>receive\<close> ends before the next consumer is
  looked at, and the field is not read).
\<close>

record handler =
  name :: nat
  is_coroutine :: bool
  receive_body :: "json \<Rightarrow> exn option"
  ends_at :: "json \<Rightarrow> nat"

text \<open>
  The \<^verbatim>\<open>for\<close> loop of \<^verbatim>\<open>dispatch\<close> over the handlers in the order the set yields them.
  A coroutine function is called, which only makes the coroutine, kept in \<open>coro\<close>; any
  other \<^verbatim>\<open>receive\<close> runs on the spot, and what it raises leaves \<^verbatim>\<open>dispatch\<close>. \<open>trace\<close>
  lists the handlers whose plain \<^verbatim>\<open>receive\<close> has run (the one that raised is the last).
\<close>

fun dispatch_loop ::
  "handler list \<Rightarrow> json \<Rightarrow> handler list \<Rightarrow> nat list
     \<Rightarrow> (exn \<times> nat list) + (handler list \<times> nat list)" where
  "dispatch_loop [] payload coro trace = Inr (coro, trace)"
| "dispatch_loop (h # hs) payload coro trace =
     (if is_coroutine h then dispatch_loop hs payload (coro @ [h]) trace
      else
        (case receive_body h payload of
           Some e \<Rightarrow> Inl (e, trace @ [name h])
         | None \<Rightarrow> dispatch_loop hs payload coro (trace @ [name h])))"

text \<open>
  The failure that comes first in time among the coroutines, with its time: of two
  failures at the same time the one of the coroutine made first counts, since the event
  loop runs the tasks in the order they were made.
\<close>

fun first_failure :: "handler list \<Rightarrow> json \<Rightarrow> (nat \<times> exn) option" where
  "first_failure [] payload = None"
| "first_failure (h # hs) payload =
     (case receive_body h payload of
        None \<Rightarrow> first_failure hs payload
      | Some e \<Rightarrow>
          (case first_failure hs payload of
             None \<Rightarrow> Some (ends_at h payload, e)
           | Some (t, e') \<Rightarrow>
               (if ends_at h payload \<le> t then Some (ends_at h payload, e) else Some (t, e'))))"

text \<open>
  \<^verbatim>\<open>await asyncio.gather\<close> on the coroutines, without \<^verbatim>\<open>return_exceptions\<close>: every
  coroutine is started as a task; when none fails, \<^verbatim>\<open>gather\<close> returns once all have
  ended; else the failure that comes first in time is raised to the awaiter, and the
  coroutines that have not ended yet are left running. The result is what is raised and
  the coroutines started.
\<close>

definition gather :: "handler list \<Rightarrow> json \<Rightarrow> exn option \<times> nat list" where
  "gather coro payload = (map_option snd (first_failure coro payload), map name coro)"

text \<open>
  \<^verbatim>\<open>ProcessorBase.dispatch\<close>: what it raises to its caller, the handlers whose plain
  \<^verbatim>\<open>receive\<close> has run, in order, and the handlers whose coroutine has been started.
\<close>

definition dispatch :: "handler list \<Rightarrow> json \<Rightarrow> exn option \<times> nat list \<times> nat list" where
  "dispatch hs payload =
     (case dispatch_loop hs payload [] [] of
        Inl (e, trace) \<Rightarrow> (Some e, trace, [])
      | Inr (coro, trace) \<Rightarrow>
          (if length coro > 0
           then (case gather coro payload of (r, started) \<Rightarrow> (r, trace, started))
           else (None, trace, [])))"

section \<open>Properties of the message handler\<close>

lemma resolved_simps [simp]:
  "\<not> resolved Pending" "\<not> resolved Cancelled" "resolved (Result v)" "resolved (Exception e)"
  by (simp_all add: resolved_def)

lemma resolved_cancel [simp]: "resolved (cancel_future f) = resolved f"
  by (cases f) (simp_all add: cancel_future_def)

lemma frame_action_resolved: "frame_action msg = Inr (Some f) \<Longrightarrow> resolved f"
  by (auto simp: frame_action_def split: sum.splits bool.splits)

lemma resolve_pending_eq:
  "resolve_pending s msg k h =
     (case frame_action msg of
        Inl e \<Rightarrow> (Some e, s)
      | Inr None \<Rightarrow> (None, s\<lparr>message_futures := (message_futures s)(k := None)\<rparr>)
      | Inr (Some f) \<Rightarrow>
          (if futs s h = Pending
           then (None, s\<lparr>futs := (futs s)(h := f), message_futures := (message_futures s)(k := None)\<rparr>)
           else (Some InvalidStateError, s)))"
  unfolding resolve_pending_def frame_action_def Let_def set_result_def set_exception_def
  by (cases "futs s h") (simp_all split: sum.split bool.split)

section \<open>The pending table in reachable states\<close>

lemma table_ok_emit: "table_ok (snd (emit_on_message s msg)) = table_ok s"
  by (simp add: table_ok_def emit_on_message_def split: option.splits)

lemma table_ok_del: "table_ok s \<Longrightarrow> table_ok (s\<lparr>message_futures := (message_futures s)(k := None)\<rparr>)"
  unfolding table_ok_def by auto

lemma table_ok_resolve:
  assumes "table_ok s" "message_futures s k = Some h"
  shows "table_ok (s\<lparr>futs := (futs s)(h := f), message_futures := (message_futures s)(k := None)\<rparr>)"
  using assms unfolding table_ok_def by (auto split: if_splits)

lemma table_ok_resolve_pending:
  "table_ok s \<Longrightarrow> message_futures s k = Some h \<Longrightarrow> table_ok (snd (resolve_pending s msg k h))"
  unfolding resolve_pending_eq
  by (auto split: sum.splits option.splits intro: table_ok_del table_ok_resolve)

lemma table_ok_handle: "table_ok s \<Longrightarrow> table_ok (snd (handle_message s msg))"
  unfolding handle_message_def
  by (auto split: sum.splits option.splits bool.splits simp: table_ok_emit table_ok_resolve_pending)

lemma table_ok_send_register: "table_ok s \<Longrightarrow> table_ok (snd (send_register s msg))"
  unfolding table_ok_def send_register_def Let_def
  by (auto simp: less_Suc_eq split: if_splits) (force+)


lemma table_ok_swk: "table_ok s \<Longrightarrow> table_ok (snd (send_with_socket s sock msg ok))"
  using table_ok_send_register[of s msg]
  by (auto simp: send_with_socket_def table_ok_def split: prod.splits)

lemma table_ok_send: "table_ok s \<Longrightarrow> table_ok (snd (send s msg ok))"
  by (auto simp: send_def table_ok_swk split: option.splits)

lemma table_ok_send_resume: "table_ok s \<Longrightarrow> table_ok (snd (send_resume s g msg ok))"
  by (auto simp: send_resume_def table_ok_swk split: option.splits sum.splits)

lemma table_ok_fresh_mono:
  "table_ok s \<Longrightarrow> message_futures s' = message_futures s \<Longrightarrow> futs s' = futs s
     \<Longrightarrow> message_id s' = message_id s \<Longrightarrow> fresh s \<le> fresh s' \<Longrightarrow> table_ok s'"
  unfolding table_ok_def by (auto) (force+)?

lemma table_ok_close_await: "table_ok (snd (close_await s os)) = table_ok s"
  by (induction s os rule: close_await.induct) (simp_all add: table_ok_def)

lemma snd_connect_iter: "snd (connect_iter s ev) = snd (receive s ev)"
  by (simp add: connect_iter_def split: prod.splits option.splits)

lemma table_ok_upd [simp]:
  "table_ok (s\<lparr>pings := p\<rparr>) = table_ok s"
  "table_ok (s\<lparr>logged := l\<rparr>) = table_ok s"
  "table_ok (s\<lparr>emitted := m\<rparr>) = table_ok s"
  by (simp_all add: table_ok_def)

lemma table_ok_receive: "table_ok s \<Longrightarrow> table_ok (snd (receive s ev))"
  by (cases ev) (simp_all add: receive_def table_ok_handle split: option.splits)

lemma table_ok_step: "table_ok s \<Longrightarrow> table_ok (step s x)"
proof (cases x)
  case Connect
  assume "table_ok s"
  then show ?thesis unfolding Connect step_def
    by (auto intro!: table_ok_fresh_mono[of s] simp: connect_def before_connect_def Let_def)
next
  case (Opened sock)
  assume "table_ok s"
  then show ?thesis unfolding Opened step_def
    by (auto intro!: table_ok_fresh_mono[of s] simp: connect_opened_def set_socket_def split: option.splits sum.splits prod.splits)
next
  case (Receive ev)
  assume "table_ok s"
  then show ?thesis unfolding Receive step_def
    by (simp add: snd_connect_iter table_ok_receive)
next
  case (Reconnect o)
  assume "table_ok s"
  then show ?thesis unfolding Reconnect step_def
    by (auto intro!: table_ok_fresh_mono[of s] simp: reconnect_def before_connect_def Let_def split: option.splits await_outcome.splits)
next
  case (CloseBegin c)
  assume "table_ok s"
  then show ?thesis unfolding CloseBegin step_def
    by (auto intro!: table_ok_fresh_mono[of s] simp: close_begin_def Let_def split: option.splits sum.splits)
next
  case (CloseEnd os)
  assume "table_ok s"
  then show ?thesis unfolding CloseEnd step_def by (simp add: table_ok_close_await)
next
  case (Send m ok)
  assume "table_ok s"
  then show ?thesis unfolding Send step_def by (simp add: table_ok_send)
next
  case (SendResume g m ok)
  assume "table_ok s"
  then show ?thesis unfolding SendResume step_def by (simp add: table_ok_send_resume)
next
  case (CancelWaiter h)
  assume "table_ok s"
  then show ?thesis unfolding CancelWaiter step_def by (auto simp: table_ok_def)
next
  case (CancelOpenWaiter g)
  assume "table_ok s"
  then show ?thesis unfolding CancelOpenWaiter step_def by (auto simp: table_ok_def)
qed

section \<open>Evaluating concrete runs\<close>

lemmas eval_defs =
  init_def step_def connect_def before_connect_def connect_opened_def set_socket_def
  set_result_def set_exception_def send_def send_resume_def send_with_socket_def
  send_register_def connect_iter_def receive_def handle_message_def resolve_pending_def
  emit_on_message_def py_in_def py_getitem_def as_key_def close_def close_begin_def
  reconnect_def cancel_future_def await_future_def status_request_def status_id_def
  issued_def STREAM_KEY_ID_def STREAM_KEY_RESULT_def STREAM_KEY_ERROR_def
  ERROR_KEY_CODE_def ERROR_KEY_MESSAGE_def Let_def

section \<open>send on a Stream that was never connected\<close>

lemma send_unconnected:
  "socket s = None \<Longrightarrow> open_future s = None \<Longrightarrow>
     send s msg ok = (Raised (StreamDisconnectedException (uri s)), s)"
  by (simp add: send_def)

lemma never_connected_run:
  "never_connected xs \<Longrightarrow> socket s = None \<Longrightarrow> open_future s = None \<Longrightarrow> conn_task s = None
     \<Longrightarrow> run s xs = s"
  by (induction xs arbitrary: s)
     (auto simp: never_connected_def step_def send_def close_begin_def split: op.splits)

text \<open>
  Claim C7. On a Stream on which \<^verbatim>\<open>connect\<close> was never called, whatever calls of
  \<^verbatim>\<open>send\<close> and \<^verbatim>\<open>close\<close> came before, \<^verbatim>\<open>send\<close> raises
  \<^verbatim>\<open>StreamDisconnectedException\<close> at once (it neither suspends on the open future nor
  registers a request) and returns the object as it found it: the pending table is still
  empty and the id counter still 0.
\<close>

theorem send_before_connect_fails:
  "never_connected xs \<Longrightarrow>
     run (init u cb) xs = init u cb \<and>
     send (run (init u cb) xs) msg ok =
       (Raised (StreamDisconnectedException u), run (init u cb) xs) \<and>
     message_futures (snd (send (run (init u cb) xs) msg ok)) = Map.empty \<and>
     message_id (snd (send (run (init u cb) xs) msg ok)) = 0"
proof -
  assume nc: "never_connected xs"
  have r: "run (init u cb) xs = init u cb"
    by (rule never_connected_run[OF nc]) (simp_all add: init_def)
  have s: "send (init u cb) msg ok = (Raised (StreamDisconnectedException u), init u cb)"
    using send_unconnected[of "init u cb" msg ok] by (simp add: init_def)
  show ?thesis unfolding r s by (simp add: init_def)
qed

theorem send_before_connect_fails_witness:
  "never_connected [Send [(''method'', JStr ''SUBSCRIBE'')] True, CloseBegin 4999] \<and>
   send (run (init ''wss://stream'' None) [Send [(''method'', JStr ''SUBSCRIBE'')] True, CloseBegin 4999])
        [] True =
     (Raised (StreamDisconnectedException ''wss://stream''),
      run (init ''wss://stream'' None) [Send [(''method'', JStr ''SUBSCRIBE'')] True, CloseBegin 4999])"
proof -
  have nc: "never_connected [Send [(''method'', JStr ''SUBSCRIBE'')] True, CloseBegin 4999]"
    by (simp add: never_connected_def)
  from send_before_connect_fails[OF nc, of "''wss://stream''" None "[]" True] nc
  show ?thesis by blast
qed

section \<open>A frame with an id and neither result nor error\<close>

text \<open>
  Claim C5. A frame that is a dict whose \<^verbatim>\<open>id\<close> is a key of the pending table and that
  has neither a \<^verbatim>\<open>result\<close> nor an \<^verbatim>\<open>error\<close> key: the handler raises nothing, no future
  changes state (so the pending future gets neither a result nor an exception), and the
  receive loop goes on.
\<close>

theorem bare_frame_resolves_nothing:
  "map_of kvs STREAM_KEY_ID = Some idv \<Longrightarrow> as_key idv = Inr (Some k) \<Longrightarrow>
   message_futures s k = Some h \<Longrightarrow>
   map_of kvs STREAM_KEY_RESULT = None \<Longrightarrow> map_of kvs STREAM_KEY_ERROR = None \<Longrightarrow>
     fst (handle_message s (JObj kvs)) = None \<and>
     futs (snd (handle_message s (JObj kvs))) = futs s \<and>
     (if socket s = None then True
      else fst (receive s (RecvParsed (JObj kvs))) = None \<and>
           fst (connect_iter s (RecvParsed (JObj kvs))) = Continue)"
  by (auto simp: handle_message_def py_in_def py_getitem_def resolve_pending_def
      receive_def connect_iter_def)

theorem bare_frame_resolves_nothing_witness:
  "map_of [(''id'', JInt 0)] STREAM_KEY_ID = Some (JInt 0) \<and>
   as_key (JInt 0) = Inr (Some 0) \<and>
   message_futures (run (init ''wss://stream'' None) [Connect, Opened 7, Send [] True]) 0 = Some 3 \<and>
   map_of [(''id'', JInt 0)] STREAM_KEY_RESULT = None \<and>
   map_of [(''id'', JInt 0)] STREAM_KEY_ERROR = None \<and>
   fst (handle_message (run (init ''wss://stream'' None) [Connect, Opened 7, Send [] True])
          (JObj [(''id'', JInt 0)])) = None \<and>
   futs (snd (handle_message (run (init ''wss://stream'' None) [Connect, Opened 7, Send [] True])
          (JObj [(''id'', JInt 0)]))) 3 = Pending"
  using bare_frame_resolves_nothing[of "[(''id'', JInt 0)]" "JInt 0" 0
      "run (init ''wss://stream'' None) [Connect, Opened 7, Send [] True]" 3]
  by (simp add: eval_defs)

section \<open>send writes the id into the caller's dict\<close>

lemma dict_set_map_of: "map_of (dict_set k v d) = (map_of d)(k \<mapsto> v)"
  by (induction d) (auto simp: fun_eq_iff)

lemma dict_set_keys:
  "map fst (dict_set k v d) = (if k \<in> fst ` set d then map fst d else map fst d @ [k])"
  by (induction d) auto

lemma send_with_socket_request:
  "status_request (fst (send_with_socket s sock msg ok)) =
     Some \<lparr>req_id = message_id s, req_future = fresh s,
           req_msg = dict_set STREAM_KEY_ID (JInt (message_id s)) msg\<rparr>"
  by (simp add: send_with_socket_def send_register_def Let_def status_request_def)

lemma send_with_socket_written:
  "written (snd (send_with_socket s sock msg True)) =
     written s @ [(sock, dict_set STREAM_KEY_ID (JInt (message_id s)) msg)]"
  by (simp add: send_with_socket_def send_register_def Let_def)

lemma registered_by_send:
  assumes "status_request (fst (send s msg ok)) = Some r"
  shows "\<exists>sock. socket s = Some sock \<and> send s msg ok = send_with_socket s sock msg ok"
  using assms
  by (cases "socket s") (auto simp: send_def status_request_def split: option.splits)

lemma registered_by_send_resume:
  assumes "status_request (fst (send_resume s g msg ok)) = Some r"
  shows "\<exists>sock. gates s g = Result sock \<and> send_resume s g msg ok = send_with_socket s sock msg ok"
  using assms
  by (cases "gates s g") (auto simp: send_resume_def status_request_def await_future_def)

lemma stamped:
  assumes "status_request (fst (send_with_socket s sock msg ok)) = Some r"
  shows "req_id r = message_id s \<and>
     req_msg r = dict_set STREAM_KEY_ID (JInt (message_id s)) msg \<and>
     map_of (req_msg r) STREAM_KEY_ID = Some (JInt (message_id s)) \<and>
     (\<forall>k. k \<noteq> STREAM_KEY_ID \<longrightarrow> map_of (req_msg r) k = map_of msg k) \<and>
     map fst (req_msg r) =
       (if STREAM_KEY_ID \<in> fst ` set msg then map fst msg else map fst msg @ [STREAM_KEY_ID]) \<and>
     written (snd (send_with_socket s sock msg ok)) =
       (if ok then written s @ [(sock, req_msg r)] else written s)"
proof -
  from assms have r: "r = \<lparr>req_id = message_id s, req_future = fresh s,
           req_msg = dict_set STREAM_KEY_ID (JInt (message_id s)) msg\<rparr>"
    by (simp add: send_with_socket_request)
  show ?thesis
    by (simp add: r dict_set_map_of dict_set_keys send_with_socket_def send_register_def Let_def)
qed

text \<open>
  Claim C10. Whenever \<^verbatim>\<open>send\<close> registers a request, be it at once with the stored socket
  or after it has waited on the open future, the caller's dict afterwards is the dict it
  passed with the assigned id (the value of the counter at that moment) stored under
  \<^verbatim>\<open>"id"\<close>: a value already there is overwritten, every other key keeps its value and
  the keys keep their order. That dict is what is written to the socket. A \<^verbatim>\<open>send\<close> that
  raises or suspends before it has a socket assigns no id and changes nothing.
\<close>

theorem send_stamps_id:
  "(status_request (fst (send s msg ok)) = Some r \<longrightarrow>
     req_id r = message_id s \<and>
     req_msg r = dict_set STREAM_KEY_ID (JInt (message_id s)) msg \<and>
     map_of (req_msg r) STREAM_KEY_ID = Some (JInt (message_id s)) \<and>
     (\<forall>k. k \<noteq> STREAM_KEY_ID \<longrightarrow> map_of (req_msg r) k = map_of msg k) \<and>
     map fst (req_msg r) =
       (if STREAM_KEY_ID \<in> fst ` set msg then map fst msg else map fst msg @ [STREAM_KEY_ID]) \<and>
     (if ok then \<exists>sock. written (snd (send s msg ok)) = written s @ [(sock, req_msg r)]
      else written (snd (send s msg ok)) = written s)) \<and>
   (status_request (fst (send_resume s g msg ok)) = Some r \<longrightarrow>
     req_id r = message_id s \<and>
     req_msg r = dict_set STREAM_KEY_ID (JInt (message_id s)) msg \<and>
     map_of (req_msg r) STREAM_KEY_ID = Some (JInt (message_id s)) \<and>
     (\<forall>k. k \<noteq> STREAM_KEY_ID \<longrightarrow> map_of (req_msg r) k = map_of msg k) \<and>
     map fst (req_msg r) =
       (if STREAM_KEY_ID \<in> fst ` set msg then map fst msg else map fst msg @ [STREAM_KEY_ID]) \<and>
     (if ok then \<exists>sock. written (snd (send_resume s g msg ok)) = written s @ [(sock, req_msg r)]
      else written (snd (send_resume s g msg ok)) = written s)) \<and>
   (status_request (fst (send s msg ok)) = None \<longrightarrow> snd (send s msg ok) = s) \<and>
   (status_request (fst (send_resume s g msg ok)) = None \<longrightarrow> snd (send_resume s g msg ok) = s)"
proof -
  have 1: "req_id r = message_id s \<and>
     req_msg r = dict_set STREAM_KEY_ID (JInt (message_id s)) msg \<and>
     map_of (req_msg r) STREAM_KEY_ID = Some (JInt (message_id s)) \<and>
     (\<forall>k. k \<noteq> STREAM_KEY_ID \<longrightarrow> map_of (req_msg r) k = map_of msg k) \<and>
     map fst (req_msg r) =
       (if STREAM_KEY_ID \<in> fst ` set msg then map fst msg else map fst msg @ [STREAM_KEY_ID]) \<and>
     (if ok then \<exists>sock. written (snd (send s msg ok)) = written s @ [(sock, req_msg r)]
      else written (snd (send s msg ok)) = written s)"
    if h: "status_request (fst (send s msg ok)) = Some r"
  proof -
    from registered_by_send[OF h] obtain sock where
      e: "send s msg ok = send_with_socket s sock msg ok" by blast
    from stamped[of s sock msg ok r] h show ?thesis unfolding e by auto
  qed
  have 2: "req_id r = message_id s \<and>
     req_msg r = dict_set STREAM_KEY_ID (JInt (message_id s)) msg \<and>
     map_of (req_msg r) STREAM_KEY_ID = Some (JInt (message_id s)) \<and>
     (\<forall>k. k \<noteq> STREAM_KEY_ID \<longrightarrow> map_of (req_msg r) k = map_of msg k) \<and>
     map fst (req_msg r) =
       (if STREAM_KEY_ID \<in> fst ` set msg then map fst msg else map fst msg @ [STREAM_KEY_ID]) \<and>
     (if ok then \<exists>sock. written (snd (send_resume s g msg ok)) = written s @ [(sock, req_msg r)]
      else written (snd (send_resume s g msg ok)) = written s)"
    if h: "status_request (fst (send_resume s g msg ok)) = Some r"
  proof -
    from registered_by_send_resume[OF h] obtain sock where
      e: "send_resume s g msg ok = send_with_socket s sock msg ok" by blast
    from stamped[of s sock msg ok r] h show ?thesis unfolding e by auto
  qed
  have 3: "snd (send s msg ok) = s" if "status_request (fst (send s msg ok)) = None"
    using that
    by (cases "socket s") (auto simp: send_def send_with_socket_request split: option.splits)
  have 4: "snd (send_resume s g msg ok) = s"
    if "status_request (fst (send_resume s g msg ok)) = None"
    using that
    by (cases "gates s g")
       (auto simp: send_resume_def await_future_def send_with_socket_request)
  show ?thesis using 1 2 3 4 by blast
qed

theorem send_stamps_id_witness:
  "status_request (fst (send (run (init ''wss://stream'' None) [Connect, Opened 7])
       [(''id'', JInt 41), (''method'', JStr ''SUBSCRIBE'')] True)) =
     Some \<lparr>req_id = 0, req_future = 3,
           req_msg = [(''id'', JInt 0), (''method'', JStr ''SUBSCRIBE'')]\<rparr> \<and>
   fst (send (run (init ''wss://stream'' None) [Connect])
       [(''method'', JStr ''SUBSCRIBE'')] True) = WaitingOpen 0 \<and>
   status_request (fst (send_resume (run (init ''wss://stream'' None) [Connect, Opened 7]) 0
       [(''method'', JStr ''SUBSCRIBE'')] True)) =
     Some \<lparr>req_id = 0, req_future = 3,
           req_msg = [(''method'', JStr ''SUBSCRIBE''), (''id'', JInt 0)]\<rparr> \<and>
   map_of [(''id'', JInt 0), (''method'', JStr ''SUBSCRIBE'')] STREAM_KEY_ID = Some (JInt 0) \<and>
   map_of [(''id'', JInt 0), (''method'', JStr ''SUBSCRIBE'')] ''method'' = Some (JStr ''SUBSCRIBE'') \<and>
   written (snd (send_resume (run (init ''wss://stream'' None) [Connect, Opened 7]) 0
       [(''method'', JStr ''SUBSCRIBE'')] True)) =
     [(7, [(''method'', JStr ''SUBSCRIBE''), (''id'', JInt 0)])]"
  using send_stamps_id[of "run (init ''wss://stream'' None) [Connect, Opened 7]"
      "[(''id'', JInt 41), (''method'', JStr ''SUBSCRIBE'')]" True
      "\<lparr>req_id = 0, req_future = 3, req_msg = [(''id'', JInt 0), (''method'', JStr ''SUBSCRIBE'')]\<rparr>" 0]
    send_stamps_id[of "run (init ''wss://stream'' None) [Connect, Opened 7]"
      "[(''method'', JStr ''SUBSCRIBE'')]" True
      "\<lparr>req_id = 0, req_future = 3, req_msg = [(''method'', JStr ''SUBSCRIBE''), (''id'', JInt 0)]\<rparr>" 0]
  by (simp add: eval_defs)

section \<open>What a step leaves alone\<close>

lemma handle_message_frame:
  "uri (snd (handle_message s msg)) = uri s"
  "socket (snd (handle_message s msg)) = socket s"
  "conn_task (snd (handle_message s msg)) = conn_task s"
  "connected_task (snd (handle_message s msg)) = connected_task s"
  "message_id (snd (handle_message s msg)) = message_id s"
  "open_future (snd (handle_message s msg)) = open_future s"
  "closing (snd (handle_message s msg)) = closing s"
  "gates (snd (handle_message s msg)) = gates s"
  "fresh (snd (handle_message s msg)) = fresh s"
  "on_message (snd (handle_message s msg)) = on_message s"
  unfolding handle_message_def resolve_pending_eq emit_on_message_def
  by (simp_all split: sum.split option.split bool.split)

lemma receive_frame:
  "uri (snd (receive s ev)) = uri s"
  "socket (snd (receive s ev)) = socket s"
  "conn_task (snd (receive s ev)) = conn_task s"
  "connected_task (snd (receive s ev)) = connected_task s"
  "message_id (snd (receive s ev)) = message_id s"
  "open_future (snd (receive s ev)) = open_future s"
  "closing (snd (receive s ev)) = closing s"
  "gates (snd (receive s ev)) = gates s"
  "fresh (snd (receive s ev)) = fresh s"
  "on_message (snd (receive s ev)) = on_message s"
  unfolding receive_def
  by (simp_all add: handle_message_frame split: option.split recv_event.split)

lemma close_await_frame:
  "uri (snd (close_await s os)) = uri s"
  "conn_task (snd (close_await s os)) = conn_task s"
  "connected_task (snd (close_await s os)) = connected_task s"
  "message_id (snd (close_await s os)) = message_id s"
  "message_futures (snd (close_await s os)) = message_futures s"
  "futs (snd (close_await s os)) = futs s"
  "open_future (snd (close_await s os)) = open_future s"
  "gates (snd (close_await s os)) = gates s"
  "fresh (snd (close_await s os)) = fresh s"
  "on_message (snd (close_await s os)) = on_message s"
  by (induction s os rule: close_await.induct) simp_all

lemma step_uri: "uri (step s x) = uri s"
  by (cases x)
     (simp_all add: step_def connect_def before_connect_def connect_opened_def set_socket_def
        snd_connect_iter receive_frame reconnect_def close_begin_def close_await_frame
        send_def send_resume_def send_with_socket_def send_register_def Let_def
        split: option.split sum.split prod.split await_outcome.split)

lemma step_conn_task:
  "conn_task (step s x) = (if x = Connect then Some (Suc (fresh s)) else conn_task s)"
  by (cases x)
     (simp_all add: step_def connect_def before_connect_def connect_opened_def set_socket_def
        snd_connect_iter receive_frame reconnect_def close_begin_def close_await_frame
        send_def send_resume_def send_with_socket_def send_register_def Let_def
        split: option.split sum.split prod.split await_outcome.split)

lemma swk_fields:
  "status_id (fst (send_with_socket s sock msg ok)) = Some (message_id s)"
  "message_id (snd (send_with_socket s sock msg ok)) = message_id s + 1"
  "fresh (snd (send_with_socket s sock msg ok)) = Suc (fresh s)"
  "uri (snd (send_with_socket s sock msg ok)) = uri s"
  "socket (snd (send_with_socket s sock msg ok)) = socket s"
  "conn_task (snd (send_with_socket s sock msg ok)) = conn_task s"
  "connected_task (snd (send_with_socket s sock msg ok)) = connected_task s"
  "open_future (snd (send_with_socket s sock msg ok)) = open_future s"
  "closing (snd (send_with_socket s sock msg ok)) = closing s"
  "gates (snd (send_with_socket s sock msg ok)) = gates s"
  "on_message (snd (send_with_socket s sock msg ok)) = on_message s"
  by (simp_all add: send_with_socket_def send_register_def Let_def status_id_def status_request_def)

lemma status_id_simps [simp]:
  "status_id (Raised e) = None" "status_id (WaitingOpen g) = None"
  by (simp_all add: status_id_def status_request_def)

lemma issued_send:
  "issued s (Send msg ok) = (if socket s = None then None else Some (message_id s))"
  by (simp add: issued_def send_def swk_fields split: option.split)

lemma issued_send_resume:
  "issued s (SendResume g msg ok) =
     (case gates s g of Result sock \<Rightarrow> Some (message_id s) | _ \<Rightarrow> None)"
  by (simp add: issued_def send_resume_def swk_fields await_future_def split: future.split)

lemma issued_is_counter:
  assumes "issued s x = Some k"
  shows "k = message_id s"
proof (cases x)
  case (Send msg ok)
  with assms show ?thesis by (auto simp: issued_send split: if_splits)
next
  case (SendResume g msg ok)
  with assms show ?thesis by (auto simp: issued_send_resume split: future.splits)
qed (use assms in \<open>simp_all add: issued_def\<close>)

lemma step_message_id:
  "message_id (step s x) = (case issued s x of None \<Rightarrow> message_id s | Some k \<Rightarrow> k + 1)"
proof (cases x)
  case (Send msg ok)
  then show ?thesis
    by (simp add: issued_send step_def send_def swk_fields split: option.split)
next
  case (SendResume g msg ok)
  then show ?thesis
    by (simp add: issued_send_resume step_def send_resume_def await_future_def swk_fields
        split: future.split)
qed (simp_all add: issued_def step_def connect_def before_connect_def connect_opened_def
       set_socket_def snd_connect_iter receive_frame reconnect_def close_begin_def
       close_await_frame Let_def
       split: option.split sum.split prod.split await_outcome.split)

lemma step_fresh: "fresh s \<le> fresh (step s x)"
  by (cases x)
     (simp_all add: step_def connect_def before_connect_def connect_opened_def set_socket_def
        snd_connect_iter receive_frame reconnect_def close_begin_def close_await_frame
        send_def send_resume_def send_with_socket_def send_register_def Let_def
        split: option.split sum.split prod.split await_outcome.split)

lemma handles_ok_step: "handles_ok s \<Longrightarrow> handles_ok (step s x)"
  by (cases x)
     (auto simp: handles_ok_def step_def connect_def before_connect_def connect_opened_def set_socket_def
        snd_connect_iter receive_frame reconnect_def close_begin_def close_await_frame
        send_def send_resume_def send_with_socket_def send_register_def Let_def less_Suc_eq
        split: option.splits sum.splits prod.splits await_outcome.splits)

section \<open>Reachable states\<close>

lemma table_ok_init: "table_ok (init u cb)" by (simp add: table_ok_def init_def)
lemma handles_ok_init: "handles_ok (init u cb)" by (simp add: handles_ok_def init_def)

lemma table_ok_run: "table_ok s \<Longrightarrow> table_ok (run s xs)"
  by (induction xs arbitrary: s) (simp_all add: table_ok_step)

lemma handles_ok_run: "handles_ok s \<Longrightarrow> handles_ok (run s xs)"
  by (induction xs arbitrary: s) (simp_all add: handles_ok_step)

lemma run_uri: "uri (run s xs) = uri s"
  by (induction xs arbitrary: s) (simp_all add: step_uri)

lemma run_conn_task_None: "conn_task (run s xs) = None \<longleftrightarrow> conn_task s = None \<and> Connect \<notin> set xs"
  by (induction xs arbitrary: s) (auto simp: step_conn_task)

lemma run_append: "run s (xs @ ys) = run (run s xs) ys"
  by (induction xs arbitrary: s) simp_all

section \<open>Request ids\<close>

lemma run_ids_lower: "list_all (\<lambda>k. message_id s \<le> k) (run_ids s xs)"
proof (induction xs arbitrary: s)
  case Nil
  show ?case by simp
next
  case (Cons x xs)
  have mono: "message_id s \<le> message_id (step s x)"
    using issued_is_counter[of s x] by (simp add: step_message_id split: option.split)
  have tl: "list_all (\<lambda>k. message_id s \<le> k) (run_ids (step s x) xs)"
    using Cons.IH[of "step s x"] mono by (auto simp: list_all_iff)
  show ?case using tl issued_is_counter[of s x] by (simp split: option.split)
qed

lemma run_ids_sorted: "sorted_wrt (<) (run_ids s xs)"
proof (induction xs arbitrary: s)
  case Nil
  show ?case by simp
next
  case (Cons x xs)
  show ?case
  proof (cases "issued s x")
    case None
    then show ?thesis using Cons.IH[of "step s x"] by simp
  next
    case (Some k)
    then have k: "k = message_id s" by (rule issued_is_counter)
    have "message_id (step s x) = k + 1" using Some by (simp add: step_message_id)
    then have "list_all (\<lambda>j. k < j) (run_ids (step s x) xs)"
      using run_ids_lower[of "step s x" xs] by (auto simp: list_all_iff)
    then show ?thesis using Some Cons.IH[of "step s x"] by (simp add: list_all_iff)
  qed
qed

lemma run_message_id: "message_id (run s xs) = message_id s + int (length (run_ids s xs))"
proof (induction xs arbitrary: s)
  case Nil
  show ?case by simp
next
  case (Cons x xs)
  show ?case using Cons.IH[of "step s x"] issued_is_counter[of s x]
    by (simp add: step_message_id split: option.split)
qed

lemma run_ids_exact:
  "run_ids s xs = map (\<lambda>i. message_id s + int i) [0..<length (run_ids s xs)]"
proof (induction xs arbitrary: s)
  case Nil
  show ?case by simp
next
  case (Cons x xs)
  show ?case
  proof (cases "issued s x")
    case None
    then have "message_id (step s x) = message_id s" by (simp add: step_message_id)
    then show ?thesis using None Cons.IH[of "step s x"] by simp
  next
    case (Some k)
    then have k: "k = message_id s" by (rule issued_is_counter)
    have m: "message_id (step s x) = message_id s + 1" using Some k by (simp add: step_message_id)
    let ?n = "length (run_ids (step s x) xs)"
    have "map (\<lambda>i. message_id s + int i) [0..<Suc ?n] =
          message_id s # map (\<lambda>i. message_id s + 1 + int i) [0..<?n]"
      by (simp add: upt_conv_Cons map_Suc_upt[symmetric] del: upt_Suc)
    then show ?thesis using Some k m Cons.IH[of "step s x"] by simp
  qed
qed

text \<open>
  Claim C6. From any state and over any run of steps, the ids that \<^verbatim>\<open>send\<close> assigns are
  strictly increasing, hence never reused: they are the consecutive integers from the
  value of the counter at the start, and the counter ends at its start value plus the
  number of ids assigned. \<^verbatim>\<open>_reconnect\<close>, \<^verbatim>\<open>close\<close> (both halves), the opening of a
  socket and \<^verbatim>\<open>connect\<close> leave the counter as it is, so a \<^verbatim>\<open>send\<close> after a
  reconnection or after a close continues the sequence.
\<close>

theorem request_ids_increase:
  "sorted_wrt (<) (run_ids s xs) \<and> distinct (run_ids s xs) \<and>
   run_ids s xs = map (\<lambda>i. message_id s + int i) [0..<length (run_ids s xs)] \<and>
   message_id (run s xs) = message_id s + int (length (run_ids s xs)) \<and>
   message_id (snd (reconnect s outcome)) = message_id s \<and>
   message_id (snd (close s code outcomes)) = message_id s \<and>
   message_id (step s (CloseBegin code)) = message_id s \<and>
   message_id (step s (CloseEnd outcomes)) = message_id s \<and>
   message_id (step s (Opened sock)) = message_id s \<and>
   message_id (connect s) = message_id s"
proof -
  have d: "distinct (run_ids s xs)"
    using run_ids_sorted[of s xs] by (simp add: strict_sorted_iff)
  have r: "message_id (snd (reconnect s outcome)) = message_id s"
    by (simp add: reconnect_def before_connect_def Let_def split: option.split await_outcome.split)
  have c: "message_id (snd (close s code outcomes)) = message_id s"
    by (simp add: close_def close_begin_def close_await_frame Let_def
        split: option.split sum.split prod.split)
  have e: "message_id (step s (CloseBegin code)) = message_id s"
    "message_id (step s (CloseEnd outcomes)) = message_id s"
    "message_id (step s (Opened sock)) = message_id s"
    "message_id (step s Connect) = message_id s"
    by (simp_all add: step_message_id issued_def)
  show ?thesis using run_ids_sorted[of s xs] d run_ids_exact[of s xs] run_message_id[of s xs] r c e
    by (simp add: step_def)
qed

theorem request_ids_increase_witness:
  "run_ids (init ''wss://stream'' None)
     [Connect, Opened 7, Send [] True, Reconnect Returned, Opened 8, Send [] False,
      CloseBegin 4999, CloseEnd [Returned, Returned], Connect, Opened 9, Send [] True] = [0, 1, 2] \<and>
   sorted_wrt (<) (run_ids (init ''wss://stream'' None)
     [Connect, Opened 7, Send [] True, Reconnect Returned, Opened 8, Send [] False,
      CloseBegin 4999, CloseEnd [Returned, Returned], Connect, Opened 9, Send [] True])"
  using request_ids_increase[of "init ''wss://stream'' None"
     "[Connect, Opened 7, Send [] True, Reconnect Returned, Opened 8, Send [] False,
      CloseBegin 4999, CloseEnd [Returned, Returned], Connect, Opened 9, Send [] True]"
     Returned 0 "[]" 0]
  by (simp add: eval_defs)

section \<open>connect\<close>

text \<open>
  Claim C2 fails as stated: a second \<^verbatim>\<open>connect\<close> on a new Stream stores another
  connection task and another open future and starts a second connection task, so the
  state after two calls is not the state after one.
\<close>

theorem connect_is_not_idempotent:
  "conn_task (connect (init ''wss://stream'' None)) = Some 1 \<and>
   conn_task (connect (connect (init ''wss://stream'' None))) = Some 3 \<and>
   open_future (connect (init ''wss://stream'' None)) = Some 0 \<and>
   open_future (connect (connect (init ''wss://stream'' None))) = Some 2 \<and>
   spawned (connect (init ''wss://stream'' None)) = [(1, ConnTask)] \<and>
   spawned (connect (connect (init ''wss://stream'' None))) = [(1, ConnTask), (3, ConnTask)] \<and>
   connect (connect (init ''wss://stream'' None)) \<noteq> connect (init ''wss://stream'' None)"
proof -
  have a: "conn_task (connect (init ''wss://stream'' None)) = Some 1"
    "conn_task (connect (connect (init ''wss://stream'' None))) = Some 3"
    "open_future (connect (init ''wss://stream'' None)) = Some 0"
    "open_future (connect (connect (init ''wss://stream'' None))) = Some 2"
    "spawned (connect (init ''wss://stream'' None)) = [(1, ConnTask)]"
    "spawned (connect (connect (init ''wss://stream'' None))) = [(1, ConnTask), (3, ConnTask)]"
    by (simp_all add: connect_def before_connect_def init_def Let_def)
  have "connect (connect (init ''wss://stream'' None)) \<noteq> connect (init ''wss://stream'' None)"
  proof
    assume "connect (connect (init ''wss://stream'' None)) = connect (init ''wss://stream'' None)"
    then have "conn_task (connect (connect (init ''wss://stream'' None))) =
               conn_task (connect (init ''wss://stream'' None))" by simp
    then show False unfolding a by simp
  qed
  with a show ?thesis by simp
qed

text \<open>
  Claim C2, amended. In every state reachable from a new Stream, \<^verbatim>\<open>connect\<close> returns
  without suspending and leaves the socket, the \<^verbatim>\<open>on_connected\<close> task, the id counter,
  the pending table, the closing flag, the uri and the response futures as they are; it
  stores a newly made pending open future and a newly started connection task, both
  different from the ones stored before.
\<close>

theorem connect_effect:
  "uri (connect (run (init u cb) xs)) = uri (run (init u cb) xs) \<and>
   socket (connect (run (init u cb) xs)) = socket (run (init u cb) xs) \<and>
   connected_task (connect (run (init u cb) xs)) = connected_task (run (init u cb) xs) \<and>
   message_id (connect (run (init u cb) xs)) = message_id (run (init u cb) xs) \<and>
   message_futures (connect (run (init u cb) xs)) = message_futures (run (init u cb) xs) \<and>
   closing (connect (run (init u cb) xs)) = closing (run (init u cb) xs) \<and>
   futs (connect (run (init u cb) xs)) = futs (run (init u cb) xs) \<and>
   open_future (connect (run (init u cb) xs)) = Some (fresh (run (init u cb) xs)) \<and>
   gates (connect (run (init u cb) xs)) (fresh (run (init u cb) xs)) = Pending \<and>
   conn_task (connect (run (init u cb) xs)) = Some (Suc (fresh (run (init u cb) xs))) \<and>
   spawned (connect (run (init u cb) xs)) =
     spawned (run (init u cb) xs) @ [(Suc (fresh (run (init u cb) xs)), ConnTask)] \<and>
   open_future (connect (run (init u cb) xs)) \<noteq> open_future (run (init u cb) xs) \<and>
   conn_task (connect (run (init u cb) xs)) \<noteq> conn_task (run (init u cb) xs)"
proof -
  let ?s = "run (init u cb) xs"
  have h: "handles_ok ?s" by (rule handles_ok_run[OF handles_ok_init])
  have "open_future ?s \<noteq> Some (fresh ?s)" "conn_task ?s \<noteq> Some (Suc (fresh ?s))"
    using h by (auto simp: handles_ok_def)
  then show ?thesis by (simp add: connect_def before_connect_def Let_def)
qed

theorem connect_effect_witness:
  "open_future (connect (run (init ''wss://stream'' None) [Connect, Opened 7])) = Some 3 \<and>
   open_future (run (init ''wss://stream'' None) [Connect, Opened 7]) = None \<and>
   conn_task (connect (run (init ''wss://stream'' None) [Connect, Opened 7])) = Some 4 \<and>
   conn_task (run (init ''wss://stream'' None) [Connect, Opened 7]) = Some 1 \<and>
   socket (connect (run (init ''wss://stream'' None) [Connect, Opened 7])) = Some 7"
  using connect_effect[of "''wss://stream''" None "[Connect, Opened 7]"]
  by (simp add: eval_defs)

section \<open>close\<close>

lemma close_raises_iff:
  "fst (close s code outcomes) = Some (StreamDisconnectedException u) \<longleftrightarrow>
     conn_task s = None \<and> uri s = u"
proof (cases "conn_task s")
  case None
  then show ?thesis by (auto simp: close_def close_begin_def)
next
  case (Some t)
  have "fst (close_await s' os) \<noteq> Some (StreamDisconnectedException u)" for s' os
    by (induction s' os rule: close_await.induct) simp_all
  then show ?thesis using Some
    by (simp add: close_def close_begin_def Let_def split: option.split prod.split)
qed

text \<open>
  Claim C3 fails as stated: on a Stream that was connected and opened, a first
  \<^verbatim>\<open>close\<close> runs to its end (socket forgotten, closing flag lowered), and a second
  \<^verbatim>\<open>close\<close> then raises nothing.
\<close>

theorem second_close_does_not_raise:
  "close (run (init ''wss://stream'' None) [Connect, Opened 7]) 4999 [Returned, Returned] =
     (None, run (init ''wss://stream'' None) [Connect, Opened 7, CloseBegin 4999, CloseEnd [Returned, Returned]]) \<and>
   socket (run (init ''wss://stream'' None) [Connect, Opened 7, CloseBegin 4999, CloseEnd [Returned, Returned]]) = None \<and>
   closing (run (init ''wss://stream'' None) [Connect, Opened 7, CloseBegin 4999, CloseEnd [Returned, Returned]]) = False \<and>
   fst (close (run (init ''wss://stream'' None) [Connect, Opened 7, CloseBegin 4999, CloseEnd [Returned, Returned]])
          4999 [Returned]) = None"
  by (simp add: eval_defs)

text \<open>
  Claim C3, amended. In a state reached from a new Stream, \<^verbatim>\<open>close\<close> raises
  \<^verbatim>\<open>StreamDisconnectedException\<close> exactly when \<^verbatim>\<open>connect\<close> was never called. A
  \<^verbatim>\<open>close\<close> that returns normally has forgotten the socket and lowered the closing flag
  but kept the connection task, so a \<^verbatim>\<open>close\<close> after it does not raise
  \<^verbatim>\<open>StreamDisconnectedException\<close>.
\<close>

theorem close_raises_iff_never_connected:
  "(fst (close (run (init u cb) xs) code outcomes) = Some (StreamDisconnectedException u))
     = (Connect \<notin> set xs) \<and>
   (if fst (close s code outcomes) = None
    then conn_task (snd (close s code outcomes)) = conn_task s \<and>
         conn_task s \<noteq> None \<and>
         socket (snd (close s code outcomes)) = None \<and>
         closing (snd (close s code outcomes)) = False \<and>
         fst (close (snd (close s code outcomes)) code2 outcomes2)
           \<noteq> Some (StreamDisconnectedException (uri s))
    else True)"
proof -
  have a: "(fst (close (run (init u cb) xs) code outcomes) = Some (StreamDisconnectedException u))
     = (Connect \<notin> set xs)"
    by (simp add: close_raises_iff run_uri run_conn_task_None) (simp add: init_def)
  have fin: "fst (close_await s' os) = None \<Longrightarrow>
      socket (snd (close_await s' os)) = None \<and> closing (snd (close_await s' os)) = False" for s' os
    by (induction s' os rule: close_await.induct) simp_all
  have b: "fst (close s code outcomes) = None \<Longrightarrow>
         conn_task (snd (close s code outcomes)) = conn_task s \<and>
         conn_task s \<noteq> None \<and>
         socket (snd (close s code outcomes)) = None \<and>
         closing (snd (close s code outcomes)) = False"
    using fin
    by (cases "conn_task s")
       (auto simp: close_def close_begin_def Let_def close_await_frame split: option.splits prod.splits)
  have c: "fst (close s code outcomes) = None \<Longrightarrow>
      fst (close (snd (close s code outcomes)) code2 outcomes2)
           \<noteq> Some (StreamDisconnectedException (uri s))"
    using b by (simp add: close_raises_iff)
  show ?thesis using a b c by simp
qed

theorem close_raises_iff_never_connected_witness:
  "fst (close (run (init ''wss://stream'' None) [Send [] True, CloseBegin 4999]) 4999 [Returned])
     = Some (StreamDisconnectedException ''wss://stream'') \<and>
   fst (close (run (init ''wss://stream'' None) [Connect, CloseBegin 4999, CloseEnd [Returned]]) 4999 [Returned])
     = None"
  using close_raises_iff_never_connected[of "''wss://stream''" None "[Send [] True, CloseBegin 4999]" 4999 "[Returned]"
      "run (init ''wss://stream'' None) [Connect, CloseBegin 4999, CloseEnd [Returned]]" 4999 "[Returned]"]
  by (simp add: eval_defs)

section \<open>What a step does to the table and to the futures\<close>

lemma handle_message_effect:
  "(message_futures (snd (handle_message s msg)) = message_futures s \<and>
    futs (snd (handle_message s msg)) = futs s) \<or>
   (\<exists>k h. message_futures s k = Some h \<and>
          message_futures (snd (handle_message s msg)) = (message_futures s)(k := None) \<and>
          (futs (snd (handle_message s msg)) = futs s \<or>
           (futs s h = Pending \<and>
            (\<exists>f. resolved f \<and> futs (snd (handle_message s msg)) = (futs s)(h := f)))))"
  unfolding handle_message_def resolve_pending_eq emit_on_message_def
  by (auto split: sum.split option.split bool.split dest: frame_action_resolved)

lemma receive_effect:
  "(message_futures (snd (receive s ev)) = message_futures s \<and>
    futs (snd (receive s ev)) = futs s) \<or>
   (\<exists>k h. message_futures s k = Some h \<and>
          message_futures (snd (receive s ev)) = (message_futures s)(k := None) \<and>
          (futs (snd (receive s ev)) = futs s \<or>
           (futs s h = Pending \<and>
            (\<exists>f. resolved f \<and> futs (snd (receive s ev)) = (futs s)(h := f)))))"
proof (cases "socket s")
  case None
  then show ?thesis by (simp add: receive_def)
next
  case (Some sock)
  show ?thesis
  proof (cases ev)
    case (RecvParsed msg)
    then show ?thesis using Some handle_message_effect[of s msg] by (simp add: receive_def)
  qed (simp_all add: receive_def Some)
qed

text \<open>What a step can do to the table and to the futures.\<close>

lemma step_table:
  assumes "message_futures (step s x) k = Some h"
  shows "message_futures s k = Some h \<or> (k = message_id s \<and> h = fresh s)"
proof (cases x)
  case (Receive ev)
  then show ?thesis using assms receive_effect[of s ev]
    by (auto simp: step_def snd_connect_iter split: if_splits)
next
  case (Send msg ok)
  then show ?thesis using assms
    by (auto simp: step_def send_def send_with_socket_def send_register_def Let_def
        split: option.splits if_splits)
next
  case (SendResume g msg ok)
  then show ?thesis using assms
    by (auto simp: step_def send_resume_def send_with_socket_def send_register_def Let_def
        split: option.splits sum.splits if_splits)
qed (use assms in \<open>auto simp: step_def connect_def before_connect_def connect_opened_def
       set_socket_def reconnect_def close_begin_def close_await_frame Let_def
       split: option.splits sum.splits prod.splits await_outcome.splits\<close>)

lemma step_futs:
  assumes "resolved (futs (step s x) h)" "\<not> resolved (futs s h)"
  shows "\<exists>k. message_futures s k = Some h"
proof (cases x)
  case (Receive ev)
  then show ?thesis using assms receive_effect[of s ev]
    by (auto simp: step_def snd_connect_iter split: if_splits)
next
  case (Send msg ok)
  then show ?thesis using assms
    by (auto simp: step_def send_def send_with_socket_def send_register_def Let_def
        split: option.splits if_splits)
next
  case (SendResume g msg ok)
  then show ?thesis using assms
    by (auto simp: step_def send_resume_def send_with_socket_def send_register_def Let_def
        split: option.splits sum.splits if_splits)
qed (use assms in \<open>auto simp: step_def connect_def before_connect_def connect_opened_def
       set_socket_def reconnect_def close_begin_def close_await_frame Let_def
       split: option.splits sum.splits prod.splits await_outcome.splits if_splits\<close>)

lemma step_mono: "message_id s \<le> message_id (step s x)"
  using issued_is_counter[of s x] by (simp add: step_message_id split: option.split)

text \<open>An allocated future that is not in the table stays out of it and is never resolved.\<close>

lemma orphan_step:
  assumes "h < fresh s" "\<forall>k. message_futures s k \<noteq> Some h" "\<not> resolved (futs s h)"
  shows "h < fresh (step s x) \<and> (\<forall>k. message_futures (step s x) k \<noteq> Some h) \<and>
         \<not> resolved (futs (step s x) h)"
proof -
  have 1: "h < fresh (step s x)" using assms(1) step_fresh[of s x] by simp
  have 2: "\<forall>k. message_futures (step s x) k \<noteq> Some h"
    using step_table[of s x _ h] assms(1,2) by auto
  have 3: "\<not> resolved (futs (step s x) h)"
    using step_futs[of s x h] assms(2,3) by auto
  show ?thesis using 1 2 3 by simp
qed

lemma orphan_run:
  assumes "h < fresh s" "\<forall>k. message_futures s k \<noteq> Some h" "\<not> resolved (futs s h)"
  shows "(\<forall>k. message_futures (run s xs) k \<noteq> Some h) \<and> \<not> resolved (futs (run s xs) h)"
  using assms
proof (induction xs arbitrary: s)
  case Nil
  then show ?case by simp
next
  case (Cons x xs)
  from orphan_step[OF Cons.prems, of x] show ?case using Cons.IH[of "step s x"] by simp
qed

text \<open>An id below the counter that is not in the table never comes back.\<close>

lemma dead_id_step:
  assumes "k < message_id s" "message_futures s k = None"
  shows "k < message_id (step s x) \<and> message_futures (step s x) k = None"
proof -
  have "message_futures (step s x) k \<noteq> Some h" for h
    using step_table[of s x k h] assms by auto
  then show ?thesis using assms(1) step_mono[of s x] by (cases "message_futures (step s x) k") auto
qed

lemma dead_id_run:
  assumes "k < message_id s" "message_futures s k = None"
  shows "message_futures (run s xs) k = None"
  using assms
proof (induction xs arbitrary: s)
  case Nil
  then show ?case by simp
next
  case (Cons x xs)
  from dead_id_step[OF Cons.prems, of x] show ?case using Cons.IH[of "step s x"] by simp
qed

lemma handle_unknown_id:
  "map_of kvs STREAM_KEY_ID = Some idv \<Longrightarrow> as_key idv = Inr (Some k) \<Longrightarrow>
   message_futures s k = None \<Longrightarrow>
     handle_message s (JObj kvs) = emit_on_message s (JObj kvs)"
  by (simp add: handle_message_def py_in_def py_getitem_def)

section \<open>The table never holds a resolved future\<close>

lemma step_keeps_entry:
  assumes "table_ok s" "message_futures s k = Some h" "\<forall>msg. x \<noteq> Receive (RecvParsed msg)"
  shows "message_futures (step s x) k = Some h"
proof (cases x)
  case (Receive ev)
  then show ?thesis using assms(2,3)
    by (cases ev) (auto simp: step_def snd_connect_iter receive_def split: option.split)
next
  case (Send msg ok)
  then show ?thesis using assms(1,2)
    by (auto simp: step_def send_def send_with_socket_def send_register_def Let_def table_ok_def
        split: option.splits)
next
  case (SendResume g msg ok)
  then show ?thesis using assms(1,2)
    by (auto simp: step_def send_resume_def send_with_socket_def send_register_def Let_def
        table_ok_def split: option.splits sum.splits)
qed (use assms(2) in \<open>auto simp: step_def connect_def before_connect_def connect_opened_def
       set_socket_def reconnect_def close_begin_def close_await_frame Let_def
       split: option.splits sum.splits prod.splits await_outcome.splits\<close>)

lemma step_entry_gone:
  assumes "table_ok s" "message_futures s k = Some h" "message_futures (step s x) k \<noteq> Some h"
  shows "message_futures (step s x) k = None"
proof (cases "message_futures (step s x) k")
  case None
  then show ?thesis .
next
  case (Some h')
  have "k < message_id s" using assms(1,2) by (auto simp: table_ok_def)
  with step_table[OF Some] have "message_futures s k = Some h'" by auto
  with assms(2,3) Some show ?thesis by simp
qed

text \<open>
  Claim C8 fails as stated: \<^verbatim>\<open>send\<close> registers its request before it writes to the
  socket, and when the write raises, the caller gets \<^verbatim>\<open>ConnectionClosed\<close> while the
  entry for its id stays in the table.
\<close>

theorem failed_write_leaves_entry:
  "fst (send (run (init ''wss://stream'' None) [Connect, Opened 7]) [] False) =
     WriteFailed \<lparr>req_id = 0, req_future = 3, req_msg = [(''id'', JInt 0)]\<rparr> ConnectionClosed \<and>
   message_futures (snd (send (run (init ''wss://stream'' None) [Connect, Opened 7]) [] False)) 0
     = Some 3"
  by (simp add: eval_defs)

text \<open>
  Claim C8, amended. In every state reachable from a new Stream, no future in the pending
  table has had a result or an exception set: a caller awaiting a future that is in the
  table is still suspended or has been cancelled. Whenever the message handler changes a
  future, it resolves it and, in the same step, takes its entry out of the table. A caller
  can all the same have got its terminal result while its entry is in the table: when the
  write to the socket raises, \<^verbatim>\<open>send\<close> raises \<^verbatim>\<open>ConnectionClosed\<close> and leaves the entry
  it has just made; when a waiting caller is cancelled, it gets \<^verbatim>\<open>CancelledError\<close> and
  its entry stays. No step but the handling of a decoded frame takes an entry out of the
  table.
\<close>

theorem resolved_future_not_in_table:
  "(\<forall>k h. message_futures (run (init u cb) xs) k = Some h \<longrightarrow>
      \<not> resolved (futs (run (init u cb) xs) h) \<and>
      (await_future (futs (run (init u cb) xs) h) = None \<or>
       await_future (futs (run (init u cb) xs) h) = Some (Inl CancelledError))) \<and>
   (\<forall>msg h. futs (snd (handle_message (run (init u cb) xs) msg)) h \<noteq> futs (run (init u cb) xs) h
      \<longrightarrow> resolved (futs (snd (handle_message (run (init u cb) xs) msg)) h) \<and>
          (\<forall>k. message_futures (snd (handle_message (run (init u cb) xs) msg)) k \<noteq> Some h)) \<and>
   (\<forall>sock msg. socket (run (init u cb) xs) = Some sock \<longrightarrow>
      fst (send (run (init u cb) xs) msg False) =
        WriteFailed \<lparr>req_id = message_id (run (init u cb) xs),
                     req_future = fresh (run (init u cb) xs),
                     req_msg = dict_set STREAM_KEY_ID (JInt (message_id (run (init u cb) xs))) msg\<rparr>
          ConnectionClosed \<and>
      message_futures (snd (send (run (init u cb) xs) msg False)) (message_id (run (init u cb) xs))
        = Some (fresh (run (init u cb) xs))) \<and>
   (\<forall>k h. message_futures (run (init u cb) xs) k = Some h \<and>
          futs (run (init u cb) xs) h = Pending \<longrightarrow>
      await_future (futs (step (run (init u cb) xs) (CancelWaiter h)) h) = Some (Inl CancelledError) \<and>
      message_futures (step (run (init u cb) xs) (CancelWaiter h)) k = Some h) \<and>
   (\<forall>k h x. message_futures (run (init u cb) xs) k = Some h \<and>
            message_futures (step (run (init u cb) xs) x) k \<noteq> Some h \<longrightarrow>
      (\<exists>msg. x = Receive (RecvParsed msg)) \<and>
      message_futures (step (run (init u cb) xs) x) k = None)"
proof -
  let ?s = "run (init u cb) xs"
  have t: "table_ok ?s" by (rule table_ok_run[OF table_ok_init])
  have a: "\<not> resolved (futs ?s h) \<and>
      (await_future (futs ?s h) = None \<or> await_future (futs ?s h) = Some (Inl CancelledError))"
    if "message_futures ?s k = Some h" for k h
  proof -
    have "\<not> resolved (futs ?s h)" using t that by (auto simp: table_ok_def)
    then show ?thesis by (cases "futs ?s h") (simp_all add: await_future_def)
  qed
  have b: "resolved (futs (snd (handle_message ?s msg)) h) \<and>
          (\<forall>k. message_futures (snd (handle_message ?s msg)) k \<noteq> Some h)"
    if c: "futs (snd (handle_message ?s msg)) h \<noteq> futs ?s h" for msg h
  proof -
    have t': "table_ok (snd (handle_message ?s msg))" by (rule table_ok_handle[OF t])
    have r: "resolved (futs (snd (handle_message ?s msg)) h)"
      using handle_message_effect[of ?s msg] c by (auto split: if_splits)
    then have "\<forall>k. message_futures (snd (handle_message ?s msg)) k \<noteq> Some h"
      using t' by (auto simp: table_ok_def)
    with r show ?thesis by simp
  qed
  have c: "fst (send ?s msg False) =
        WriteFailed \<lparr>req_id = message_id ?s, req_future = fresh ?s,
                     req_msg = dict_set STREAM_KEY_ID (JInt (message_id ?s)) msg\<rparr>
          ConnectionClosed \<and>
      message_futures (snd (send ?s msg False)) (message_id ?s) = Some (fresh ?s)"
    if "socket ?s = Some sock" for sock msg
    using that by (simp add: send_def send_with_socket_def send_register_def Let_def)
  have d: "await_future (futs (step ?s (CancelWaiter h)) h) = Some (Inl CancelledError) \<and>
      message_futures (step ?s (CancelWaiter h)) k = Some h"
    if "message_futures ?s k = Some h" "futs ?s h = Pending" for k h
    using that by (simp add: step_def cancel_future_def await_future_def)
  have e: "(\<exists>msg. x = Receive (RecvParsed msg)) \<and> message_futures (step ?s x) k = None"
    if "message_futures ?s k = Some h" "message_futures (step ?s x) k \<noteq> Some h" for k h x
    using step_keeps_entry[OF t that(1), of x] step_entry_gone[OF t that] that(2) by blast
  show ?thesis using a b c d e by blast
qed

theorem resolved_future_not_in_table_witness:
  "message_futures (run (init ''wss://stream'' None) [Connect, Opened 7, Send [] True, Send [] True]) 1
     = Some 4 \<and>
   \<not> resolved (futs (run (init ''wss://stream'' None) [Connect, Opened 7, Send [] True, Send [] True]) 4) \<and>
   futs (snd (handle_message (run (init ''wss://stream'' None) [Connect, Opened 7, Send [] True, Send [] True])
               (JObj [(''id'', JInt 0), (''result'', JNull)]))) 3 = Result JNull \<and>
   futs (run (init ''wss://stream'' None) [Connect, Opened 7, Send [] True, Send [] True]) 3 = Pending \<and>
   message_futures (snd (handle_message (run (init ''wss://stream'' None) [Connect, Opened 7, Send [] True, Send [] True])
               (JObj [(''id'', JInt 0), (''result'', JNull)]))) 0 = None \<and>
   socket (run (init ''wss://stream'' None) [Connect, Opened 7, Send [] True, Send [] True]) = Some 7 \<and>
   message_futures (snd (send (run (init ''wss://stream'' None) [Connect, Opened 7, Send [] True, Send [] True])
               [] False)) 2 = Some 5 \<and>
   await_future (futs (step (run (init ''wss://stream'' None) [Connect, Opened 7, Send [] True, Send [] True])
               (CancelWaiter 4)) 4) = Some (Inl CancelledError) \<and>
   message_futures (step (run (init ''wss://stream'' None) [Connect, Opened 7, Send [] True, Send [] True])
               (CancelWaiter 4)) 1 = Some 4 \<and>
   message_futures (step (run (init ''wss://stream'' None) [Connect, Opened 7, Send [] True, Send [] True])
               (Receive (RecvParsed (JObj [(''id'', JInt 1)])))) 1 = None"
  using resolved_future_not_in_table[of "''wss://stream''" None
      "[Connect, Opened 7, Send [] True, Send [] True]"]
  by (simp add: eval_defs)

section \<open>A frame with neither result nor error drops the request\<close>

text \<open>
  Claim C9. In a state reachable from a new Stream, a dict frame whose \<^verbatim>\<open>id\<close> is the
  key of a pending entry and that has neither \<^verbatim>\<open>result\<close> nor \<^verbatim>\<open>error\<close> makes the handler
  delete the entry and nothing else. After that, whatever steps follow, the id is never
  in the table again, the future that was stored under it never gets a result or an
  exception, and every dict frame carrying that id goes to the \<^verbatim>\<open>on_message\<close> callback.
\<close>

theorem bare_frame_drops_request:
  assumes "map_of kvs STREAM_KEY_ID = Some idv" and "as_key idv = Inr (Some k)"
    and "message_futures (run (init u cb) xs) k = Some h"
    and "map_of kvs STREAM_KEY_RESULT = None" and "map_of kvs STREAM_KEY_ERROR = None"
  shows "handle_message (run (init u cb) xs) (JObj kvs) =
           (None, (run (init u cb) xs)\<lparr>message_futures := (message_futures (run (init u cb) xs))(k := None)\<rparr>) \<and>
         (\<forall>ys. message_futures (run (snd (handle_message (run (init u cb) xs) (JObj kvs))) ys) k = None \<and>
               \<not> resolved (futs (run (snd (handle_message (run (init u cb) xs) (JObj kvs))) ys) h) \<and>
               (\<forall>kvs2 idv2. map_of kvs2 STREAM_KEY_ID = Some idv2 \<and> as_key idv2 = Inr (Some k) \<longrightarrow>
                  handle_message (run (snd (handle_message (run (init u cb) xs) (JObj kvs))) ys) (JObj kvs2) =
                  emit_on_message (run (snd (handle_message (run (init u cb) xs) (JObj kvs))) ys) (JObj kvs2)))"
proof -
  let ?s = "run (init u cb) xs"
  let ?s' = "?s\<lparr>message_futures := (message_futures ?s)(k := None)\<rparr>"
  have t: "table_ok ?s" by (rule table_ok_run[OF table_ok_init])
  have eq: "handle_message ?s (JObj kvs) = (None, ?s')"
    using assms by (simp add: handle_message_def py_in_def py_getitem_def resolve_pending_def)
  have k: "k < message_id ?s'" "message_futures ?s' k = None"
    using t assms(3) by (auto simp: table_ok_def)
  have h: "h < fresh ?s'" "\<forall>k'. message_futures ?s' k' \<noteq> Some h" "\<not> resolved (futs ?s' h)"
    using t assms(3) by (auto simp: table_ok_def)
  have 1: "message_futures (run ?s' ys) k = None" for ys by (rule dead_id_run[OF k])
  have 2: "\<not> resolved (futs (run ?s' ys) h)" for ys using orphan_run[OF h, of ys] by simp
  have 3: "handle_message (run ?s' ys) (JObj kvs2) = emit_on_message (run ?s' ys) (JObj kvs2)"
    if "map_of kvs2 STREAM_KEY_ID = Some idv2" "as_key idv2 = Inr (Some k)" for ys kvs2 idv2
    using handle_unknown_id[OF that 1[of ys]] .
  show ?thesis unfolding eq using 1 2 3 by auto
qed

theorem bare_frame_drops_request_witness:
  "map_of [(''id'', JInt 0)] STREAM_KEY_ID = Some (JInt 0) \<and>
   as_key (JInt 0) = Inr (Some 0) \<and>
   message_futures (run (init ''wss://stream'' None) [Connect, Opened 7, Send [] True]) 0 = Some 3 \<and>
   map_of [(''id'', JInt 0)] STREAM_KEY_RESULT = None \<and>
   map_of [(''id'', JInt 0)] STREAM_KEY_ERROR = None \<and>
   message_futures
     (run (snd (handle_message (run (init ''wss://stream'' None) [Connect, Opened 7, Send [] True])
                  (JObj [(''id'', JInt 0)])))
        [Receive (RecvParsed (JObj [(''id'', JInt 0), (''result'', JNull)]))]) 0 = None \<and>
   futs
     (run (snd (handle_message (run (init ''wss://stream'' None) [Connect, Opened 7, Send [] True])
                  (JObj [(''id'', JInt 0)])))
        [Receive (RecvParsed (JObj [(''id'', JInt 0), (''result'', JNull)]))]) 3 = Pending"
proof -
  have a: "map_of [(''id'', JInt 0)] STREAM_KEY_ID = Some (JInt 0)"
    "as_key (JInt 0) = Inr (Some 0)"
    "message_futures (run (init ''wss://stream'' None) [Connect, Opened 7, Send [] True]) 0 = Some 3"
    "map_of [(''id'', JInt 0)] STREAM_KEY_RESULT = None"
    "map_of [(''id'', JInt 0)] STREAM_KEY_ERROR = None"
    by (simp_all add: eval_defs)
  have b: "futs
     (run (snd (handle_message (run (init ''wss://stream'' None) [Connect, Opened 7, Send [] True])
                  (JObj [(''id'', JInt 0)])))
        [Receive (RecvParsed (JObj [(''id'', JInt 0), (''result'', JNull)]))]) 3 = Pending"
    by (simp add: eval_defs)
  from bare_frame_drops_request[OF a] a b show ?thesis by blast
qed

section \<open>Responses are matched by id\<close>

lemma frame_action_frame_of: "frame_action (frame_of (k, r)) = Inr (Some (outcome_of r))"
  by (cases r)
     (simp_all add: frame_action_def frame_of_def outcome_of_def py_in_def py_getitem_def
        STREAM_KEY_ID_def STREAM_KEY_RESULT_def STREAM_KEY_ERROR_def ERROR_KEY_CODE_def
        ERROR_KEY_MESSAGE_def)

lemma handle_frame_of:
  "handle_message s (frame_of (k, r)) =
     (case message_futures s k of
        None \<Rightarrow> emit_on_message s (frame_of (k, r))
      | Some h \<Rightarrow>
          (if futs s h = Pending
           then (None, s\<lparr>futs := (futs s)(h := outcome_of r),
                         message_futures := (message_futures s)(k := None)\<rparr>)
           else (Some InvalidStateError, s)))"
proof -
  have i: "py_in STREAM_KEY_ID (frame_of (k, r)) = Inr True"
    "py_getitem (frame_of (k, r)) STREAM_KEY_ID = Inr (JInt k)"
    by (cases r; simp add: frame_of_def py_in_def py_getitem_def)+
  show ?thesis
    by (simp add: handle_message_def i as_key_def resolve_pending_eq frame_action_frame_of
        split: option.split)
qed

lemma receive_futs_change:
  "futs (snd (receive s ev)) h \<noteq> futs s h \<Longrightarrow> futs s h = Pending"
  using receive_effect[of s ev] by (auto split: if_splits)

lemma receive_loop_done:
  "futs s h \<noteq> Pending \<Longrightarrow> futs (snd (receive_loop s evs)) h = futs s h"
proof (induction evs arbitrary: s)
  case Nil
  show ?case by simp
next
  case (Cons ev evs)
  have e: "futs (snd (receive s ev)) h = futs s h"
    using receive_futs_change[of s ev h] Cons.prems by auto
  have r: "futs (snd (receive_loop (snd (receive s ev)) evs)) h = futs s h"
    using Cons.IH[of "snd (receive s ev)"] e Cons.prems by simp
  have c: "snd (connect_iter s ev) = snd (receive s ev)" by (rule snd_connect_iter)
  show ?case
  proof (cases "closing s")
    case True
    then show ?thesis by simp
  next
    case False
    obtain res s1 where ci: "connect_iter s ev = (res, s1)" by (cases "connect_iter s ev")
    then have s1: "s1 = snd (receive s ev)" using c by simp
    show ?thesis using False ci s1 e r by (cases res) simp_all
  qed
qed

lemma connect_iter_frame:
  "socket s = Some sock \<Longrightarrow>
     connect_iter s (RecvParsed msg) =
       (case fst (handle_message s msg) of
          None \<Rightarrow> Continue
        | Some e \<Rightarrow>
            (if (e = ConnectionClosed \<or> e = CancelledError) \<and> closing s then Return else Raise e),
        snd (handle_message s msg))"
  by (cases "handle_message s msg")
     (auto simp: connect_iter_def receive_def handle_message_frame
        dest: arg_cong[where f = "\<lambda>p. closing (snd p)"] split: option.split)

lemma deliver_Nil: "deliver s [] = s" by (simp add: deliver_def)

lemma deliver_Cons:
  "socket s = Some sock \<Longrightarrow>
     deliver s (kr # rs) =
       (if closing s then s
        else if fst (handle_message s (frame_of kr)) = None
             then deliver (snd (handle_message s (frame_of kr))) rs
             else snd (handle_message s (frame_of kr)))"
  by (auto simp: deliver_def connect_iter_frame split: option.split)

lemma deliver_result_Cons:
  "socket s = Some sock \<Longrightarrow>
     deliver_result s (kr # rs) = Continue \<longleftrightarrow>
       \<not> closing s \<and> fst (handle_message s (frame_of kr)) = None \<and>
       deliver_result (snd (handle_message s (frame_of kr))) rs = Continue"
  by (auto simp: deliver_result_def connect_iter_frame split: option.split)

lemma deliver_done:
  "futs s h \<noteq> Pending \<Longrightarrow> futs (deliver s rs) h = futs s h"
  unfolding deliver_def by (rule receive_loop_done)

text \<open>
  A pending entry after the loop has met a list of responses: its future is still pending
  or holds what the first response with its id carries, and it holds that when the loop
  has taken every frame.
\<close>

lemma deliver_pending:
  assumes "table_ok s" "socket s = Some sock" "message_futures s k = Some h" "futs s h = Pending"
  shows "(futs (deliver s rs) h = Pending \<or>
          futs (deliver s rs) h = (case map_of rs k of None \<Rightarrow> Pending | Some r \<Rightarrow> outcome_of r)) \<and>
         (deliver_result s rs = Continue \<longrightarrow>
          futs (deliver s rs) h = (case map_of rs k of None \<Rightarrow> Pending | Some r \<Rightarrow> outcome_of r))"
  using assms
proof (induction rs arbitrary: s)
  case Nil
  then show ?case by (simp add: deliver_Nil)
next
  case (Cons kr rs)
  obtain k' r' where kr: "kr = (k', r')" by (cases kr)
  let ?s1 = "snd (handle_message s (frame_of kr))"
  have t1: "table_ok ?s1" by (rule table_ok_handle[OF Cons.prems(1)])
  have sk1: "socket ?s1 = Some sock" using Cons.prems(2) by (simp add: handle_message_frame)
  show ?case
  proof (cases "closing s")
    case True
    then show ?thesis
      using Cons.prems(2,4) by (simp add: deliver_Cons deliver_result_Cons)
  next
    case nc: False
    show ?thesis
    proof (cases "k' = k")
      case True
      have h1: "fst (handle_message s (frame_of kr)) = None" "futs ?s1 h = outcome_of r'"
        using Cons.prems(3,4) True by (simp_all add: kr handle_frame_of)
      have "outcome_of r' \<noteq> Pending" by (cases r') (simp_all add: outcome_of_def)
      then have "futs (deliver ?s1 rs) h = outcome_of r'"
        using deliver_done[of ?s1 h rs] h1(2) by simp
      then show ?thesis
        using True nc h1(1) Cons.prems(2) by (simp add: deliver_Cons kr)
    next
      case False
      have inj: "message_futures s k' \<noteq> Some h"
        using Cons.prems(1,3) False by (auto simp: table_ok_def)
      have keep: "message_futures ?s1 k = Some h" "futs ?s1 h = Pending"
        using Cons.prems(3,4) False inj
        by (auto simp: kr handle_frame_of emit_on_message_def split: option.split)
      note IH = Cons.IH[OF t1 sk1 keep]
      show ?thesis
      proof (cases "fst (handle_message s (frame_of kr)) = None")
        case ok: True
        have d: "deliver s (kr # rs) = deliver ?s1 rs"
          using ok nc by (simp add: deliver_Cons[OF Cons.prems(2)])
        have r: "deliver_result s (kr # rs) = Continue \<longleftrightarrow> deliver_result ?s1 rs = Continue"
          using ok nc by (simp add: deliver_result_Cons[OF Cons.prems(2)])
        have m: "map_of (kr # rs) k = map_of rs k" using False by (simp add: kr)
        show ?thesis unfolding d r m using IH by simp
      next
        case ne: False
        have d: "deliver s (kr # rs) = ?s1"
          using ne nc deliver_Cons[OF Cons.prems(2), of kr rs] by auto
        have r: "deliver_result s (kr # rs) \<noteq> Continue"
          using ne deliver_result_Cons[OF Cons.prems(2), of kr rs] by auto
        show ?thesis unfolding d using r keep(2) by simp
      qed
    qed
  qed
qed

text \<open>
  The loop takes every response when the stream is not closing, no future in the table has
  been cancelled and the callback never raises.
\<close>

lemma deliver_continues:
  assumes "table_ok s" "socket s = Some sock" "\<not> closing s"
    "\<forall>k h. message_futures s k = Some h \<longrightarrow> futs s h = Pending"
    "\<forall>c m. on_message s = Some c \<longrightarrow> c m = None"
  shows "deliver_result s rs = Continue"
  using assms
proof (induction rs arbitrary: s)
  case Nil
  then show ?case by (simp add: deliver_result_def)
next
  case (Cons kr rs)
  obtain k' r' where kr: "kr = (k', r')" by (cases kr)
  let ?s1 = "snd (handle_message s (frame_of kr))"
  have t1: "table_ok ?s1" by (rule table_ok_handle[OF Cons.prems(1)])
  have ok: "fst (handle_message s (frame_of kr)) = None"
    using Cons.prems(4,5)
    by (auto simp: kr handle_frame_of emit_on_message_def split: option.split)
  have p1: "socket ?s1 = Some sock" "\<not> closing ?s1" "\<forall>c m. on_message ?s1 = Some c \<longrightarrow> c m = None"
    using Cons.prems(2,3,5) by (simp_all add: handle_message_frame)
  have p2: "\<forall>k h. message_futures ?s1 k = Some h \<longrightarrow> futs ?s1 h = Pending"
  proof (intro allI impI)
    fix k h
    assume a: "message_futures ?s1 k = Some h"
    show "futs ?s1 h = Pending"
    proof (cases "message_futures s k'")
      case None
      then show ?thesis using a Cons.prems(4)
        by (auto simp: kr handle_frame_of emit_on_message_def split: option.splits)
    next
      case (Some h')
      then have ph: "futs s h' = Pending" using Cons.prems(4) by simp
      have e: "message_futures ?s1 = (message_futures s)(k' := None)"
              "futs ?s1 = (futs s)(h' := outcome_of r')"
        using Some ph by (simp_all add: kr handle_frame_of)
      from a have kk: "k \<noteq> k'" "message_futures s k = Some h" unfolding e by (auto split: if_splits)
      then have "h \<noteq> h'" using Some Cons.prems(1) by (auto simp: table_ok_def)
      then show ?thesis unfolding e using kk(2) Cons.prems(4) by simp
    qed
  qed
  show ?case
    using Cons.IH[OF t1 p1(1,2) p2 p1(3)] ok Cons.prems(2,3) by (simp add: deliver_result_Cons)
qed

lemma swk_table:
  "message_futures (snd (send_with_socket s sock msg ok)) =
     (message_futures s)(message_id s \<mapsto> fresh s)"
  "futs (snd (send_with_socket s sock msg ok)) = (futs s)(fresh s := Pending)"
  "status_request (fst (send_with_socket s sock msg ok)) =
     Some \<lparr>req_id = message_id s, req_future = fresh s,
           req_msg = dict_set STREAM_KEY_ID (JInt (message_id s)) msg\<rparr>"
  by (simp_all add: send_with_socket_def send_register_def Let_def status_request_def)

lemma send_all_Cons:
  "send_all s (msg # msgs) =
     ((case status_request (fst (send s msg True)) of None \<Rightarrow> [] | Some r \<Rightarrow> [r])
        @ fst (send_all (snd (send s msg True)) msgs),
      snd (send_all (snd (send s msg True)) msgs))"
  by (simp split: prod.split)

lemma send_all_keeps:
  assumes "table_ok s" "socket s = Some sock" "message_futures s k = Some h" "futs s h = Pending"
  shows "message_futures (snd (send_all s msgs)) k = Some h \<and> futs (snd (send_all s msgs)) h = Pending"
  using assms
proof (induction msgs arbitrary: s)
  case Nil
  then show ?case by simp
next
  case (Cons msg msgs)
  let ?s1 = "snd (send s msg True)"
  have se: "send s msg True = send_with_socket s sock msg True"
    using Cons.prems(2) by (simp add: send_def)
  have t1: "table_ok ?s1" by (rule table_ok_send[OF Cons.prems(1)])
  have sk1: "socket ?s1 = Some sock" using Cons.prems(2) by (simp add: se swk_fields)
  have old: "message_futures ?s1 k = Some h" "futs ?s1 h = Pending"
    using Cons.prems(1,3,4) by (auto simp: se swk_table table_ok_def)
  show ?case using Cons.IH[OF t1 sk1 old] by (simp add: send_all_Cons del: send_all.simps)
qed

lemma send_all_props:
  assumes "table_ok s" "socket s = Some sock"
  shows "table_ok (snd (send_all s msgs)) \<and> socket (snd (send_all s msgs)) = Some sock \<and>
         closing (snd (send_all s msgs)) = closing s \<and>
         on_message (snd (send_all s msgs)) = on_message s \<and>
         map req_id (fst (send_all s msgs)) = map (\<lambda>i. message_id s + int i) [0..<length msgs] \<and>
         map req_future (fst (send_all s msgs)) = map (\<lambda>i. fresh s + i) [0..<length msgs] \<and>
         list_all2 (\<lambda>r m. req_msg r = dict_set STREAM_KEY_ID (JInt (req_id r)) m)
                   (fst (send_all s msgs)) msgs \<and>
         written (snd (send_all s msgs)) =
           written s @ map (\<lambda>r. (sock, req_msg r)) (fst (send_all s msgs)) \<and>
         ((\<forall>k h. message_futures s k = Some h \<longrightarrow> futs s h = Pending) \<longrightarrow>
          (\<forall>k h. message_futures (snd (send_all s msgs)) k = Some h \<longrightarrow>
                 futs (snd (send_all s msgs)) h = Pending)) \<and>
         list_all (\<lambda>r. message_futures (snd (send_all s msgs)) (req_id r) = Some (req_future r) \<and>
                       futs (snd (send_all s msgs)) (req_future r) = Pending)
                  (fst (send_all s msgs))"
  using assms
proof (induction msgs arbitrary: s)
  case Nil
  then show ?case by simp
next
  case (Cons msg msgs)
  let ?s1 = "snd (send s msg True)"
  have se: "send s msg True = send_with_socket s sock msg True"
    using Cons.prems(2) by (simp add: send_def)
  have t1: "table_ok ?s1" by (rule table_ok_send[OF Cons.prems(1)])
  have sk1: "socket ?s1 = Some sock" using Cons.prems(2) by (simp add: se swk_fields)
  note IH = Cons.IH[OF t1 sk1]
  have m1: "message_id ?s1 = message_id s + 1" "fresh ?s1 = Suc (fresh s)"
    "closing ?s1 = closing s" "on_message ?s1 = on_message s"
    by (simp_all add: se swk_fields)
  have w1: "written ?s1 = written s @ [(sock, dict_set STREAM_KEY_ID (JInt (message_id s)) msg)]"
    by (simp add: se send_with_socket_written)
  have new: "message_futures ?s1 (message_id s) = Some (fresh s)" "futs ?s1 (fresh s) = Pending"
    by (simp_all add: se swk_table)
  have lt: "message_id s < message_id ?s1" "fresh s < fresh ?s1" using m1 by simp_all
  have tab1: "k < message_id ?s1 \<and> h < fresh ?s1" if "message_futures ?s1 k = Some h" for k h
    using t1 that by (auto simp: table_ok_def)
  have allp: "\<forall>k h. message_futures ?s1 k = Some h \<longrightarrow> futs ?s1 h = Pending"
    if "\<forall>k h. message_futures s k = Some h \<longrightarrow> futs s h = Pending"
    using that by (auto simp: se swk_table split: if_splits)
  have unf: "send_all s (msg # msgs) =
      (\<lparr>req_id = message_id s, req_future = fresh s,
        req_msg = dict_set STREAM_KEY_ID (JInt (message_id s)) msg\<rparr> # fst (send_all ?s1 msgs),
       snd (send_all ?s1 msgs))"
    unfolding send_all_Cons by (simp add: se swk_table)
  have ids: "map (\<lambda>i. message_id s + int i) [0..<length (msg # msgs)] =
             message_id s # map (\<lambda>i. message_id ?s1 + int i) [0..<length msgs]"
    by (simp add: m1 upt_conv_Cons map_Suc_upt[symmetric] del: upt_Suc)
  have fus: "map (\<lambda>i. fresh s + i) [0..<length (msg # msgs)] =
             fresh s # map (\<lambda>i. fresh ?s1 + i) [0..<length msgs]"
    by (simp add: m1 upt_conv_Cons map_Suc_upt[symmetric] del: upt_Suc)
  have first: "message_futures (snd (send_all ?s1 msgs)) (message_id s) = Some (fresh s) \<and>
               futs (snd (send_all ?s1 msgs)) (fresh s) = Pending"
    using send_all_keeps[OF t1 sk1 new] .
  show ?case unfolding unf ids fus
    using IH m1 w1 allp first by (simp add: list_all_iff)
qed

lemma handler_changes_one_future:
  "\<exists>h0. \<forall>h. h \<noteq> h0 \<longrightarrow> futs (snd (handle_message s msg)) h = futs s h"
  using handle_message_effect[of s msg] by (auto split: if_splits)

text \<open>
  Claim C1 fails as stated. Two calls of \<^verbatim>\<open>send\<close> are outstanding and the caller of the
  first is cancelled. When the response to the first arrives before the response to the
  second, \<^verbatim>\<open>set_result\<close> raises \<^verbatim>\<open>InvalidStateError\<close> on the cancelled future, the
  exception leaves the receive loop, and the second caller is never resolved; when the two
  responses arrive in the other order, the second caller gets its result.
\<close>

theorem late_response_for_cancelled_caller:
  "fst (send_all (run (init ''wss://stream'' None) [Connect, Opened 7]) [[], []]) =
     [\<lparr>req_id = 0, req_future = 3, req_msg = [(''id'', JInt 0)]\<rparr>,
      \<lparr>req_id = 1, req_future = 4, req_msg = [(''id'', JInt 1)]\<rparr>] \<and>
   deliver_result
     (step (snd (send_all (run (init ''wss://stream'' None) [Connect, Opened 7]) [[], []]))
        (CancelWaiter 3))
     [(0, Ok JNull), (1, Ok (JStr ''done''))] = Raise InvalidStateError \<and>
   send_result
     (deliver
        (step (snd (send_all (run (init ''wss://stream'' None) [Connect, Opened 7]) [[], []]))
           (CancelWaiter 3))
        [(0, Ok JNull), (1, Ok (JStr ''done''))])
     \<lparr>req_id = 1, req_future = 4, req_msg = [(''id'', JInt 1)]\<rparr> = None \<and>
   send_result
     (deliver
        (step (snd (send_all (run (init ''wss://stream'' None) [Connect, Opened 7]) [[], []]))
           (CancelWaiter 3))
        [(1, Ok (JStr ''done'')), (0, Ok JNull)])
     \<lparr>req_id = 1, req_future = 4, req_msg = [(''id'', JInt 1)]\<rparr> = Some (Inr (JStr ''done''))"
  by (simp add: eval_defs send_all_Cons deliver_def deliver_result_def frame_of_def
      send_result_def del: send_all.simps(2))

text \<open>
  Claim C1, amended. In a state reachable from a new Stream and with a socket, let any
  number of \<^verbatim>\<open>send\<close> calls be issued before any of them is answered: they get
  consecutive, distinct ids and distinct futures, and the frame written for each is the
  caller's dict with that id stamped under \<^verbatim>\<open>"id"\<close>. Let then the receive loop meet any
  list of well-formed responses, in any order, with ids answered twice or not at all or
  belonging to no request. No caller ever gets anything but what the first response
  carrying its own id holds (the result, or \<^verbatim>\<open>StreamSubscribeException\<close> with the code
  and message of the error). When the loop takes every frame, each caller gets exactly
  that, and stays suspended when no response carries its id; the loop takes every frame
  when the stream is not closing, no future in the table has been cancelled and the
  \<^verbatim>\<open>on_message\<close> callback never raises. The same holds of every entry pending in the
  table, however it was registered. One call of the message handler changes at most one
  future, so a frame resolves at most one caller.
\<close>

theorem responses_matched_by_id:
  assumes "socket (run (init u cb) xs) = Some sock"
  shows "map req_id (fst (send_all (run (init u cb) xs) msgs)) =
           map (\<lambda>i. message_id (run (init u cb) xs) + int i) [0..<length msgs] \<and>
         distinct (map req_id (fst (send_all (run (init u cb) xs) msgs))) \<and>
         distinct (map req_future (fst (send_all (run (init u cb) xs) msgs))) \<and>
         list_all2 (\<lambda>r m. req_msg r = dict_set STREAM_KEY_ID (JInt (req_id r)) m \<and>
                          map_of (req_msg r) STREAM_KEY_ID = Some (JInt (req_id r)) \<and>
                          (\<forall>k. k \<noteq> STREAM_KEY_ID \<longrightarrow> map_of (req_msg r) k = map_of m k))
           (fst (send_all (run (init u cb) xs) msgs)) msgs \<and>
         written (snd (send_all (run (init u cb) xs) msgs)) =
           written (run (init u cb) xs) @
           map (\<lambda>r. (sock, req_msg r)) (fst (send_all (run (init u cb) xs) msgs)) \<and>
         list_all
           (\<lambda>r. send_result (deliver (snd (send_all (run (init u cb) xs) msgs)) rs) r = None \<or>
                send_result (deliver (snd (send_all (run (init u cb) xs) msgs)) rs) r =
                  caller_gets (map_of rs (req_id r)))
           (fst (send_all (run (init u cb) xs) msgs)) \<and>
         (deliver_result (snd (send_all (run (init u cb) xs) msgs)) rs = Continue \<longrightarrow>
          list_all
            (\<lambda>r. send_result (deliver (snd (send_all (run (init u cb) xs) msgs)) rs) r =
                   caller_gets (map_of rs (req_id r)))
            (fst (send_all (run (init u cb) xs) msgs))) \<and>
         (\<not> closing (run (init u cb) xs) \<and>
          (\<forall>k h. message_futures (run (init u cb) xs) k = Some h \<longrightarrow>
                 futs (run (init u cb) xs) h = Pending) \<and>
          (\<forall>c m. cb = Some c \<longrightarrow> c m = None) \<longrightarrow>
          deliver_result (snd (send_all (run (init u cb) xs) msgs)) rs = Continue) \<and>
         (\<forall>k h. message_futures (run (init u cb) xs) k = Some h \<and>
                futs (run (init u cb) xs) h = Pending \<and>
                deliver_result (run (init u cb) xs) rs = Continue \<longrightarrow>
                await_future (futs (deliver (run (init u cb) xs) rs) h) = caller_gets (map_of rs k)) \<and>
         (\<exists>h0. \<forall>h. h \<noteq> h0 \<longrightarrow> futs (snd (handle_message s msg)) h = futs s h)"
proof -
  let ?s = "run (init u cb) xs"
  let ?s1 = "snd (send_all ?s msgs)"
  let ?reqs = "fst (send_all ?s msgs)"
  have t: "table_ok ?s" by (rule table_ok_run[OF table_ok_init])
  note p = send_all_props[OF t assms, of msgs]
  have t1: "table_ok ?s1" "socket ?s1 = Some sock" using p by simp_all
  have ids: "map req_id ?reqs = map (\<lambda>i. message_id ?s + int i) [0..<length msgs]"
    using p by simp
  have d1: "distinct (map req_id ?reqs)" unfolding ids by (simp add: distinct_map inj_on_def)
  have d2: "distinct (map req_future ?reqs)"
    using p by (simp add: distinct_map inj_on_def)
  have st: "list_all2 (\<lambda>r m. req_msg r = dict_set STREAM_KEY_ID (JInt (req_id r)) m \<and>
                          map_of (req_msg r) STREAM_KEY_ID = Some (JInt (req_id r)) \<and>
                          (\<forall>k. k \<noteq> STREAM_KEY_ID \<longrightarrow> map_of (req_msg r) k = map_of m k))
             ?reqs msgs"
  proof -
    have "list_all2 (\<lambda>r m. req_msg r = dict_set STREAM_KEY_ID (JInt (req_id r)) m) ?reqs msgs"
      using p by simp
    then show ?thesis
      by (rule list_all2_mono) (simp add: dict_set_map_of)
  qed
  have wr: "written ?s1 = written ?s @ map (\<lambda>r. (sock, req_msg r)) ?reqs" using p by simp
  have ent: "message_futures ?s1 (req_id r) = Some (req_future r)" "futs ?s1 (req_future r) = Pending"
    if "r \<in> set ?reqs" for r
    using p that by (auto simp: list_all_iff)
  have exp: "await_future (case ro of None \<Rightarrow> Pending | Some r \<Rightarrow> outcome_of r) = caller_gets ro" for ro
    by (simp add: caller_gets_def await_future_def split: option.split)
  have safe: "send_result (deliver ?s1 rs) r = None \<or>
              send_result (deliver ?s1 rs) r = caller_gets (map_of rs (req_id r))"
    if "r \<in> set ?reqs" for r
    using deliver_pending[OF t1 ent[OF that], of rs] exp[of "map_of rs (req_id r)"]
    by (auto simp: send_result_def await_future_def)
  have live: "send_result (deliver ?s1 rs) r = caller_gets (map_of rs (req_id r))"
    if "r \<in> set ?reqs" "deliver_result ?s1 rs = Continue" for r
    using deliver_pending[OF t1 ent[OF that(1)], of rs] that(2) exp[of "map_of rs (req_id r)"]
    by (simp add: send_result_def)
  have om: "on_message ?s = cb"
  proof -
    have "on_message (run s' ys) = on_message s'" for s' ys
    proof (induction ys arbitrary: s')
      case Nil
      show ?case by simp
    next
      case (Cons y ys)
      have "on_message (step s' y) = on_message s'"
        by (cases y)
           (simp_all add: step_def connect_def before_connect_def connect_opened_def
              set_socket_def snd_connect_iter receive_frame reconnect_def close_begin_def
              close_await_frame send_def send_resume_def swk_fields Let_def
              split: option.split sum.split prod.split await_outcome.split)
      then show ?case using Cons.IH[of "step s' y"] by simp
    qed
    then show ?thesis by (simp add: init_def)
  qed
  have cont: "deliver_result ?s1 rs = Continue"
    if "\<not> closing ?s" "\<forall>k h. message_futures ?s k = Some h \<longrightarrow> futs ?s h = Pending"
       "\<forall>c m. cb = Some c \<longrightarrow> c m = None"
  proof (rule deliver_continues[OF t1])
    show "\<not> closing ?s1" using p that(1) by simp
    show "\<forall>k h. message_futures ?s1 k = Some h \<longrightarrow> futs ?s1 h = Pending" using p that(2) by blast
    show "\<forall>c m. on_message ?s1 = Some c \<longrightarrow> c m = None" using p that(3) om by simp
  qed
  have any: "await_future (futs (deliver ?s rs) h) = caller_gets (map_of rs k)"
    if "message_futures ?s k = Some h" "futs ?s h = Pending" "deliver_result ?s rs = Continue" for k h
    using deliver_pending[OF t assms that(1,2), of rs] that(3) exp[of "map_of rs k"] by simp
  show ?thesis
    using ids d1 d2 st wr safe live cont any handler_changes_one_future[of s msg]
    by (simp add: list_all_iff)
qed

theorem responses_matched_by_id_witness:
  "socket (run (init ''wss://stream'' None) [Connect, Opened 7]) = Some 7 \<and>
   map req_id (fst (send_all (run (init ''wss://stream'' None) [Connect, Opened 7])
       [[(''method'', JStr ''SUBSCRIBE'')], [(''method'', JStr ''UNSUBSCRIBE'')],
        [(''method'', JStr ''LIST_SUBSCRIPTIONS'')]])) = [0, 1, 2] \<and>
   written (snd (send_all (run (init ''wss://stream'' None) [Connect, Opened 7])
       [[(''method'', JStr ''SUBSCRIBE'')], [(''method'', JStr ''UNSUBSCRIBE'')],
        [(''method'', JStr ''LIST_SUBSCRIPTIONS'')]])) =
     [(7, [(''method'', JStr ''SUBSCRIBE''), (''id'', JInt 0)]),
      (7, [(''method'', JStr ''UNSUBSCRIBE''), (''id'', JInt 1)]),
      (7, [(''method'', JStr ''LIST_SUBSCRIPTIONS''), (''id'', JInt 2)])] \<and>
   deliver_result
     (snd (send_all (run (init ''wss://stream'' None) [Connect, Opened 7])
             [[(''method'', JStr ''SUBSCRIBE'')], [(''method'', JStr ''UNSUBSCRIBE'')],
              [(''method'', JStr ''LIST_SUBSCRIPTIONS'')]]))
     [(2, Ok (JArr [JStr ''btcusdt@ticker''])),
      (1, Fail (JInt (- 1)) (JStr ''bad param'')),
      (0, Ok JNull)] = Continue \<and>
   map (send_result
         (deliver (snd (send_all (run (init ''wss://stream'' None) [Connect, Opened 7])
             [[(''method'', JStr ''SUBSCRIBE'')], [(''method'', JStr ''UNSUBSCRIBE'')],
              [(''method'', JStr ''LIST_SUBSCRIPTIONS'')]]))
           [(2, Ok (JArr [JStr ''btcusdt@ticker''])),
            (1, Fail (JInt (- 1)) (JStr ''bad param'')),
            (0, Ok JNull)]))
       (fst (send_all (run (init ''wss://stream'' None) [Connect, Opened 7])
         [[(''method'', JStr ''SUBSCRIBE'')], [(''method'', JStr ''UNSUBSCRIBE'')],
          [(''method'', JStr ''LIST_SUBSCRIPTIONS'')]]))
     = [Some (Inr JNull),
        Some (Inl (StreamSubscribeException (JInt (- 1)) (JStr ''bad param''))),
        Some (Inr (JArr [JStr ''btcusdt@ticker'']))]"
proof -
  have sk: "socket (run (init ''wss://stream'' None) [Connect, Opened 7]) = Some 7"
    by (simp add: eval_defs)
  from responses_matched_by_id[OF sk,
      of "[[(''method'', JStr ''SUBSCRIBE'')], [(''method'', JStr ''UNSUBSCRIBE'')],
          [(''method'', JStr ''LIST_SUBSCRIPTIONS'')]]"
         "[(2, Ok (JArr [JStr ''btcusdt@ticker''])),
            (1, Fail (JInt (- 1)) (JStr ''bad param'')),
            (0, Ok JNull)]"]
  show ?thesis using sk
    by (simp add: eval_defs caller_gets_def outcome_of_def list_all_iff send_all_Cons
        deliver_def deliver_result_def frame_of_def send_result_def del: send_all.simps(2))
qed

section \<open>The dispatcher and failing consumers\<close>

lemma dispatch_loop_ok:
  "list_all (\<lambda>h. receive_body h p = None) (filter (\<lambda>h. \<not> is_coroutine h) hs) \<Longrightarrow>
     dispatch_loop hs p coro tr =
       Inr (coro @ filter is_coroutine hs, tr @ map name (filter (\<lambda>h. \<not> is_coroutine h) hs))"
proof (induction hs arbitrary: coro tr)
  case Nil
  show ?case by simp
next
  case (Cons a hs)
  show ?case
  proof (cases "is_coroutine a")
    case True
    then show ?thesis using Cons.IH[of "coro @ [a]" tr] Cons.prems by simp
  next
    case False
    then have ok: "receive_body a p = None"
      "list_all (\<lambda>h. receive_body h p = None) (filter (\<lambda>h. \<not> is_coroutine h) hs)"
      using Cons.prems by simp_all
    show ?thesis using Cons.IH[OF ok(2), of coro "tr @ [name a]"] False ok(1) by simp
  qed
qed

lemma dispatch_loop_raises:
  "filter (\<lambda>h. \<not> is_coroutine h) hs = pre @ h # post \<Longrightarrow>
   list_all (\<lambda>h. receive_body h p = None) pre \<Longrightarrow> receive_body h p = Some e \<Longrightarrow>
     dispatch_loop hs p coro tr = Inl (e, tr @ map name pre @ [name h])"
proof (induction hs arbitrary: coro tr pre)
  case Nil
  then show ?case by simp
next
  case (Cons a hs)
  show ?case
  proof (cases "is_coroutine a")
    case True
    then show ?thesis using Cons by simp
  next
    case False
    show ?thesis
    proof (cases pre)
      case Nil
      then have "a = h" using Cons.prems(1) False by simp
      then show ?thesis using Cons.prems(3) False Nil by simp
    next
      case (Cons b pre')
      then have ab: "a = b" and f: "filter (\<lambda>h. \<not> is_coroutine h) hs = pre' @ h # post"
        using Cons.prems(1) False by simp_all
      have ok: "receive_body a p = None" "list_all (\<lambda>h. receive_body h p = None) pre'"
        using Cons.prems(2) Cons ab by simp_all
      show ?thesis
        using Cons.IH[OF f ok(2) Cons.prems(3), of coro "tr @ [name a]"] False ok(1) Cons ab
        by simp
    qed
  qed
qed

lemma first_failure_None:
  "first_failure coro p = None \<longleftrightarrow> list_all (\<lambda>h. receive_body h p = None) coro"
  by (induction coro) (auto split: option.splits)

lemma first_failure_Some:
  "first_failure coro p = Some (t, e) \<Longrightarrow>
     \<exists>h \<in> set coro. receive_body h p = Some e \<and> ends_at h p = t \<and>
       (\<forall>h' \<in> set coro. receive_body h' p \<noteq> None \<longrightarrow> t \<le> ends_at h' p)"
proof (induction coro arbitrary: t e)
  case Nil
  then show ?case by simp
next
  case (Cons a coro)
  show ?case
  proof (cases "receive_body a p")
    case None
    then have "first_failure coro p = Some (t, e)" using Cons.prems by simp
    from Cons.IH[OF this] None show ?thesis by auto
  next
    case (Some ea)
    show ?thesis
    proof (cases "first_failure coro p")
      case None
      then have "list_all (\<lambda>h. receive_body h p = None) coro" by (simp add: first_failure_None)
      moreover have "t = ends_at a p" "e = ea" using Cons.prems Some None by simp_all
      ultimately show ?thesis using Some by (auto simp: list_all_iff)
    next
      case Some2: (Some te)
      obtain t' e' where te: "te = (t', e')" by (cases te)
      from Cons.IH[of t' e'] Some2 te obtain h where
        h: "h \<in> set coro" "receive_body h p = Some e'" "ends_at h p = t'"
           "\<forall>h' \<in> set coro. receive_body h' p \<noteq> None \<longrightarrow> t' \<le> ends_at h' p" by auto
      show ?thesis
      proof (cases "ends_at a p \<le> t'")
        case True
        then have "t = ends_at a p" "e = ea" using Cons.prems Some Some2 te by simp_all
        then show ?thesis using Some h(4) True by auto
      next
        case False
        then have "t = t'" "e = e'" using Cons.prems Some Some2 te by simp_all
        then show ?thesis using h False by auto
      qed
    qed
  qed
qed

lemma dispatch_sync_ok:
  assumes "list_all (\<lambda>h. receive_body h p = None) (filter (\<lambda>h. \<not> is_coroutine h) hs)"
  shows "dispatch hs p =
           (map_option snd (first_failure (filter is_coroutine hs) p),
            map name (filter (\<lambda>h. \<not> is_coroutine h) hs), map name (filter is_coroutine hs))"
  unfolding dispatch_def dispatch_loop_ok[OF assms]
  by (cases "filter is_coroutine hs") (simp_all add: gather_def)

lemma dispatch_sync_raises:
  assumes "filter (\<lambda>h. \<not> is_coroutine h) hs = pre @ h # post"
    "list_all (\<lambda>h. receive_body h p = None) pre" "receive_body h p = Some e"
  shows "dispatch hs p = (Some e, map name pre @ [name h], [])"
  unfolding dispatch_def dispatch_loop_raises[OF assms] by simp

lemma first_bad_split:
  "\<not> list_all P xs \<Longrightarrow> \<exists>pre x post. xs = pre @ x # post \<and> list_all P pre \<and> \<not> P x"
proof (induction xs)
  case Nil
  then show ?case by simp
next
  case (Cons a xs)
  show ?case
  proof (cases "P a")
    case True
    then obtain pre x post where "xs = pre @ x # post" "list_all P pre" "\<not> P x"
      using Cons by auto
    then have "a # xs = (a # pre) @ x # post \<and> list_all P (a # pre) \<and> \<not> P x"
      using True by simp
    then show ?thesis by blast
  next
    case False
    then have "a # xs = [] @ a # xs \<and> list_all P [] \<and> \<not> P a" by simp
    then show ?thesis by blast
  qed
qed

lemma dispatch_None_iff:
  "fst (dispatch hs p) = None \<longleftrightarrow> list_all (\<lambda>h. receive_body h p = None) hs"
proof (cases "list_all (\<lambda>h. receive_body h p = None) (filter (\<lambda>h. \<not> is_coroutine h) hs)")
  case True
  have "list_all (\<lambda>h. receive_body h p = None) hs \<longleftrightarrow>
        list_all (\<lambda>h. receive_body h p = None) (filter is_coroutine hs)"
    using True by (auto simp: list_all_iff)
  then show ?thesis by (simp add: dispatch_sync_ok[OF True] first_failure_None)
next
  case False
  from first_bad_split[OF False] obtain pre h post where
    s: "filter (\<lambda>h. \<not> is_coroutine h) hs = pre @ h # post"
       "list_all (\<lambda>h. receive_body h p = None) pre" "receive_body h p \<noteq> None" by blast
  then obtain e where e: "receive_body h p = Some e" by auto
  have "\<not> list_all (\<lambda>h. receive_body h p = None) hs" using False by (auto simp: list_all_iff)
  then show ?thesis by (simp add: dispatch_sync_raises[OF s(1,2) e])
qed

text \<open>
  Claim C4 fails as stated. A consumer with a plain \<^verbatim>\<open>receive\<close> that raises ends
  \<^verbatim>\<open>dispatch\<close>: the exception reaches the caller, and a consumer that comes later in the
  iteration is never invoked; when it comes earlier it has run, and the exception still
  reaches the caller. With coroutine consumers every coroutine is started, and the
  exception of a failing one reaches the caller all the same.
\<close>

theorem dispatch_failure_reaches_caller:
  "dispatch [\<lparr>name = 1, is_coroutine = False, receive_body = (\<lambda>p. Some (UserError ''boom'')),
              ends_at = (\<lambda>p. 0)\<rparr>,
             \<lparr>name = 2, is_coroutine = False, receive_body = (\<lambda>p. None), ends_at = (\<lambda>p. 0)\<rparr>] JNull
     = (Some (UserError ''boom''), [1], []) \<and>
   dispatch [\<lparr>name = 2, is_coroutine = False, receive_body = (\<lambda>p. None), ends_at = (\<lambda>p. 0)\<rparr>,
             \<lparr>name = 1, is_coroutine = False, receive_body = (\<lambda>p. Some (UserError ''boom'')),
              ends_at = (\<lambda>p. 0)\<rparr>] JNull
     = (Some (UserError ''boom''), [2, 1], []) \<and>
   dispatch [\<lparr>name = 1, is_coroutine = True, receive_body = (\<lambda>p. Some (UserError ''boom'')),
              ends_at = (\<lambda>p. 0)\<rparr>,
             \<lparr>name = 2, is_coroutine = True, receive_body = (\<lambda>p. None), ends_at = (\<lambda>p. 1)\<rparr>] JNull
     = (Some (UserError ''boom''), [], [1, 2])"
  by (simp add: dispatch_def gather_def)

text \<open>
  Claim C4, amended. \<^verbatim>\<open>dispatch\<close> raises nothing exactly when no consumer raises. When
  no consumer with a plain \<^verbatim>\<open>receive\<close> raises, every plain consumer has run, in
  iteration order, and every coroutine is started; what is raised to the caller then is
  the failure that comes first in time among the coroutines, if there is one. When a
  consumer with a plain \<^verbatim>\<open>receive\<close> raises, its exception is raised to the caller at
  once: of the plain consumers only those before it have run, and no coroutine is started.
\<close>

theorem dispatch_propagates_failures:
  "(fst (dispatch hs p) = None) = list_all (\<lambda>h. receive_body h p = None) hs \<and>
   (list_all (\<lambda>h. receive_body h p = None) (filter (\<lambda>h. \<not> is_coroutine h) hs) \<longrightarrow>
      dispatch hs p =
        (map_option snd (first_failure (filter is_coroutine hs) p),
         map name (filter (\<lambda>h. \<not> is_coroutine h) hs), map name (filter is_coroutine hs)) \<and>
      (\<forall>t e. first_failure (filter is_coroutine hs) p = Some (t, e) \<longrightarrow>
         (\<exists>h \<in> set (filter is_coroutine hs). receive_body h p = Some e \<and> ends_at h p = t \<and>
            (\<forall>h' \<in> set (filter is_coroutine hs).
               receive_body h' p \<noteq> None \<longrightarrow> t \<le> ends_at h' p)))) \<and>
   (filter (\<lambda>h. \<not> is_coroutine h) hs = pre @ h # post \<and>
    list_all (\<lambda>h. receive_body h p = None) pre \<and> receive_body h p = Some e \<longrightarrow>
      dispatch hs p = (Some e, map name pre @ [name h], []))"
  using dispatch_None_iff[of hs p] dispatch_sync_ok[of p hs]
    dispatch_sync_raises[of hs pre h post p e]
    first_failure_Some[of "filter is_coroutine hs" p]
  by blast

theorem dispatch_propagates_failures_witness:
  "dispatch [\<lparr>name = 1, is_coroutine = True, receive_body = (\<lambda>p. None), ends_at = (\<lambda>p. 0)\<rparr>,
             \<lparr>name = 2, is_coroutine = False, receive_body = (\<lambda>p. None), ends_at = (\<lambda>p. 0)\<rparr>,
             \<lparr>name = 3, is_coroutine = False, receive_body = (\<lambda>p. Some (UserError ''boom'')),
              ends_at = (\<lambda>p. 0)\<rparr>,
             \<lparr>name = 4, is_coroutine = False, receive_body = (\<lambda>p. None), ends_at = (\<lambda>p. 0)\<rparr>] JNull
     = (Some (UserError ''boom''), [2, 3], []) \<and>
   dispatch [\<lparr>name = 1, is_coroutine = True, receive_body = (\<lambda>p. Some (UserError ''late'')),
              ends_at = (\<lambda>p. 5)\<rparr>,
             \<lparr>name = 2, is_coroutine = False, receive_body = (\<lambda>p. None), ends_at = (\<lambda>p. 0)\<rparr>,
             \<lparr>name = 3, is_coroutine = True, receive_body = (\<lambda>p. Some (UserError ''early'')),
              ends_at = (\<lambda>p. 1)\<rparr>,
             \<lparr>name = 4, is_coroutine = True, receive_body = (\<lambda>p. None), ends_at = (\<lambda>p. 9)\<rparr>] JNull
     = (Some (UserError ''early''), [2], [1, 3, 4])"
  using dispatch_propagates_failures[of
      "[\<lparr>name = 1, is_coroutine = True, receive_body = (\<lambda>p. None), ends_at = (\<lambda>p. 0)\<rparr>,
        \<lparr>name = 2, is_coroutine = False, receive_body = (\<lambda>p. None), ends_at = (\<lambda>p. 0)\<rparr>,
        \<lparr>name = 3, is_coroutine = False, receive_body = (\<lambda>p. Some (UserError ''boom'')),
         ends_at = (\<lambda>p. 0)\<rparr>,
        \<lparr>name = 4, is_coroutine = False, receive_body = (\<lambda>p. None), ends_at = (\<lambda>p. 0)\<rparr>]" JNull
      "[\<lparr>name = 2, is_coroutine = False, receive_body = (\<lambda>p. None), ends_at = (\<lambda>p. 0)\<rparr>]"
      "\<lparr>name = 3, is_coroutine = False, receive_body = (\<lambda>p. Some (UserError ''boom'')),
        ends_at = (\<lambda>p. 0)\<rparr>"
      "[\<lparr>name = 4, is_coroutine = False, receive_body = (\<lambda>p. None), ends_at = (\<lambda>p. 0)\<rparr>]"
      "UserError ''boom''"]
    dispatch_propagates_failures[of
      "[\<lparr>name = 1, is_coroutine = True, receive_body = (\<lambda>p. Some (UserError ''late'')),
         ends_at = (\<lambda>p. 5)\<rparr>,
        \<lparr>name = 2, is_coroutine = False, receive_body = (\<lambda>p. None), ends_at = (\<lambda>p. 0)\<rparr>,
        \<lparr>name = 3, is_coroutine = True, receive_body = (\<lambda>p. Some (UserError ''early'')),
         ends_at = (\<lambda>p. 1)\<rparr>,
        \<lparr>name = 4, is_coroutine = True, receive_body = (\<lambda>p. None), ends_at = (\<lambda>p. 9)\<rparr>]" JNull]
  by simp

end
